theory Spec2Isabelle
  imports Main "HOL-Library.Word"
begin

section \<open>Values, faults and Go slices\<close>

text \<open>
  The items of the push components are Go \<^verbatim>\<open>interface{}\<close> values. \<open>NilV\<close> is the nil
  interface (the zero value of a freshly made backing array), \<open>Item a\<close> a client value,
  and \<open>SliceV xs\<close> an interface value that holds a slice whose visible elements are
  \<open>xs\<close> (the batch handed to a batch worker, and the value \<^verbatim>\<open>s.items[:1]\<close> that
  \<^verbatim>\<open>PushStack.Push\<close> hands to its overload handlers).
\<close>

datatype 'a val = NilV | Item 'a | SliceV "'a val list"

text \<open>
  A run-time panic ends the program; \<open>Blocked\<close> is a \<^verbatim>\<open>mutex.Lock()\<close> on a mutex
  that is held.
\<close>

datatype fault = ConfigPanic | NoWorkerPanic | BoundsPanic | Blocked

text \<open>
  A Go slice is a window on a backing array: \<open>elems\<close> are the cells below its length,
  \<open>spare\<close> the cells between its length and its capacity (they keep whatever the
  array holds there). Slicing and indexing follow the language definition: in
  \<^verbatim>\<open>s[l:h]\<close> the bounds must satisfy \<open>0 \<le> l \<le> h \<le> cap s\<close>, a missing \<open>h\<close> is
  \<open>len s\<close>, and an index must be below \<open>len s\<close>; anything else panics.
\<close>

record 'a slice =
  elems :: "'a val list"
  spare :: "'a val list"

definition len :: "'a slice \<Rightarrow> int" where
  "len s = int (length (elems s))"

definition cap :: "'a slice \<Rightarrow> int" where
  "cap s = int (length (elems s) + length (spare s))"

definition make_slice :: "int \<Rightarrow> 'a slice" where
  "make_slice n = \<lparr>elems = [], spare = replicate (nat n) NilV\<rparr>"

definition slice_upto :: "'a slice \<Rightarrow> int \<Rightarrow> fault + 'a slice" where
  "slice_upto s h =
     (if 0 \<le> h \<and> h \<le> cap s
      then Inr \<lparr>elems = take (nat h) (elems s @ spare s),
                spare = drop (nat h) (elems s @ spare s)\<rparr>
      else Inl BoundsPanic)"

definition slice_from :: "'a slice \<Rightarrow> int \<Rightarrow> fault + 'a slice" where
  "slice_from s l =
     (if 0 \<le> l \<and> l \<le> len s
      then Inr \<lparr>elems = drop (nat l) (elems s), spare = spare s\<rparr>
      else Inl BoundsPanic)"

definition index_at :: "'a slice \<Rightarrow> int \<Rightarrow> fault + 'a val" where
  "index_at s i =
     (if 0 \<le> i \<and> i < len s then Inr (elems s ! nat i) else Inl BoundsPanic)"

text \<open>
  \<^verbatim>\<open>append(s, x)\<close> writes into the first spare cell when there is one, and otherwise
  copies the elements to a new, zeroed array. The capacity of the new array is chosen
  by the Go runtime; it is the parameter \<open>g\<close> (from the old length to the new
  capacity), and the new array always has room for the appended element.
\<close>

definition append1 :: "(nat \<Rightarrow> nat) \<Rightarrow> 'a slice \<Rightarrow> 'a val \<Rightarrow> 'a slice" where
  "append1 g s x =
     (case spare s of
        [] \<Rightarrow> \<lparr>elems = elems s @ [x],
               spare = replicate (g (length (elems s)) - Suc (length (elems s))) NilV\<rparr>
      | y # ys \<Rightarrow> \<lparr>elems = elems s @ [x], spare = ys\<rparr>)"

section \<open>Events\<close>

text \<open>
  What a method does to the outside world is a list of events, in program order:
  \<open>GoDispatch\<close> is \<^verbatim>\<open>go q.get()\<close> (or \<^verbatim>\<open>go s.pop()\<close>), \<open>GoOnDrained\<close> is
  \<^verbatim>\<open>go q.onDrained()\<close>, \<open>Work v\<close> is the worker call made by \<^verbatim>\<open>doWork\<close>,
  \<open>GoWorker v\<close> is \<^verbatim>\<open>go s.worker(item)\<close>, and \<open>Call h v m\<close> is the plain call
  \<^verbatim>\<open>q.onOverload(v)\<close> or \<^verbatim>\<open>q.onFirstOverload(v)\<close>, made on the caller's own stack,
  with \<open>m\<close> telling whether the mutex is held at that moment.
\<close>

datatype handler = OnOverload | OnFirstOverload

datatype 'a event =
    GoDispatch
  | GoOnDrained
  | Work "'a val"
  | GoWorker "'a val"
  | Call handler "'a val" bool

fun worker_calls :: "'a event list \<Rightarrow> 'a val list" where
  "worker_calls [] = []"
| "worker_calls (Work v # es) = v # worker_calls es"
| "worker_calls (GoWorker v # es) = v # worker_calls es"
| "worker_calls (e # es) = worker_calls es"

fun handler_calls :: "handler \<Rightarrow> 'a event list \<Rightarrow> 'a val list" where
  "handler_calls h [] = []"
| "handler_calls h (Call h' v m # es) =
     (if h' = h then v # handler_calls h es else handler_calls h es)"
| "handler_calls h (e # es) = handler_calls h es"

fun drained_calls :: "'a event list \<Rightarrow> nat" where
  "drained_calls [] = 0"
| "drained_calls (GoOnDrained # es) = Suc (drained_calls es)"
| "drained_calls (e # es) = drained_calls es"

fun dispatch_calls :: "'a event list \<Rightarrow> nat" where
  "dispatch_calls [] = 0"
| "dispatch_calls (GoDispatch # es) = Suc (dispatch_calls es)"
| "dispatch_calls (e # es) = dispatch_calls es"

text \<open>The number of handler calls made while the mutex is not held.\<close>

fun unlocked_calls :: "'a event list \<Rightarrow> nat" where
  "unlocked_calls [] = 0"
| "unlocked_calls (Call h v m # es) = (if m then 0 else 1) + unlocked_calls es"
| "unlocked_calls (e # es) = unlocked_calls es"

section \<open>PushQueue and PushBatchQueue\<close>

text \<open>
  The struct \<^verbatim>\<open>PushQueue\<close>. The function-valued fields are modelled by whether they
  are set (non-nil); \<^verbatim>\<open>int\<close> fields that the code only compares, or moves by one
  inside bounds it has just checked, are \<open>int\<close>; the overload counter, which is
  incremented without a bound, is a 64-bit word. \<^verbatim>\<open>PushBatchQueue\<close> has the same
  fields and one more, \<open>batchSize\<close>, and the methods whose text is the same in both
  files are defined once, on both records.
\<close>

record 'a PushQueue =
  worker :: bool
  concurrency :: int
  availableWorkers :: int
  depth :: int
  items :: "'a slice"
  started :: bool
  draining :: bool
  overload :: "64 word"
  dropOldestOnOverload :: bool
  onOverload :: bool
  onFirstOverload :: bool
  onDrained :: bool
  mutex :: bool

record 'a PushBatchQueue = "'a PushQueue" +
  batchSize :: int

definition NewPushQueue :: "int \<Rightarrow> int \<Rightarrow> bool \<Rightarrow> fault + 'a PushQueue" where
  "NewPushQueue c d w =
     (if c < 1 then Inl ConfigPanic
      else if d < 1 then Inl ConfigPanic
      else Inr \<lparr>worker = w, concurrency = c, availableWorkers = c, depth = d,
                items = make_slice d, started = False, draining = False, overload = 0,
                dropOldestOnOverload = False, onOverload = False,
                onFirstOverload = False, onDrained = False, mutex = False\<rparr>)"

definition NewPushBatchQueue ::
  "int \<Rightarrow> int \<Rightarrow> int \<Rightarrow> bool \<Rightarrow> fault + 'a PushBatchQueue" where
  "NewPushBatchQueue c d b w =
     (if c < 1 then Inl ConfigPanic
      else if d < 1 then Inl ConfigPanic
      else if b < 1 then Inl ConfigPanic
      else Inr \<lparr>worker = w, concurrency = c, availableWorkers = c, depth = d,
                items = make_slice d, started = False, draining = False, overload = 0,
                dropOldestOnOverload = False, onOverload = False,
                onFirstOverload = False, onDrained = False, mutex = False,
                batchSize = b\<rparr>)"

definition Count :: "('a, 'z) PushQueue_scheme \<Rightarrow> int" where
  "Count q = len (items q)"

definition Depth :: "('a, 'z) PushQueue_scheme \<Rightarrow> int" where
  "Depth q = depth q"

definition IsFull :: "('a, 'z) PushQueue_scheme \<Rightarrow> bool" where
  "IsFull q = (Count q \<ge> Depth q)"

definition Start :: "'a PushQueue \<Rightarrow> fault + ('a event list \<times> 'a PushQueue)" where
  "Start q =
     (if \<not> worker q then Inl NoWorkerPanic
      else Inr ([], q\<lparr>started := True, draining := False, overload := 0\<rparr>))"

definition Stop ::
  "('a, 'z) PushQueue_scheme \<Rightarrow> ('a, 'z) PushQueue_scheme" where
  "Stop q = q\<lparr>started := False, draining := False\<rparr>"

definition setDrained ::
  "('a, 'z) PushQueue_scheme \<Rightarrow> 'a event list \<times> ('a, 'z) PushQueue_scheme" where
  "setDrained q =
     ((if onDrained q then [GoOnDrained] else []), q\<lparr>draining := False\<rparr>)"

text \<open>
  \<^verbatim>\<open>Drain\<close> takes no lock, so other goroutines can run between its statements. Its
  two assignments are \<open>Drain_flags\<close>, its test and the call of \<^verbatim>\<open>setDrained\<close> are
  \<open>Drain_check\<close>, and \<open>Drain\<close> is the call that nothing interrupts.
\<close>

definition Drain_flags ::
  "('a, 'z) PushQueue_scheme \<Rightarrow> ('a, 'z) PushQueue_scheme" where
  "Drain_flags q = q\<lparr>draining := True, started := False\<rparr>"

definition Drain_check ::
  "('a, 'z) PushQueue_scheme \<Rightarrow> 'a event list \<times> ('a, 'z) PushQueue_scheme" where
  "Drain_check q =
     (if Count q = 0 \<and> availableWorkers q = concurrency q then setDrained q
      else ([], q))"

definition Drain :: "'a PushQueue \<Rightarrow> 'a event list \<times> 'a PushQueue" where
  "Drain q = Drain_check (Drain_flags q)"

definition Empty ::
  "('a, 'z) PushQueue_scheme \<Rightarrow> fault + ('a, 'z) PushQueue_scheme" where
  "Empty q =
     (if mutex q then Inl Blocked
      else Inr (q\<lparr>items := make_slice (Depth q)\<rparr>))"

definition DropOldestOnOverload ::
  "('a, 'z) PushQueue_scheme \<Rightarrow> ('a, 'z) PushQueue_scheme" where
  "DropOldestOnOverload q = q\<lparr>dropOldestOnOverload := True\<rparr>"

text \<open>
  The tail of the overload branch of \<^verbatim>\<open>Put\<close>: the counter, the two handler calls
  and the deferred unlock. \<open>evs\<close> are the events of the branch so far.
\<close>

definition report_overload ::
  "('a, 'z) PushQueue_scheme \<Rightarrow> 'a event list \<Rightarrow> 'a val \<Rightarrow>
   'a event list \<times> ('a, 'z) PushQueue_scheme" where
  "report_overload q evs dropItem =
     (let q1 = q\<lparr>overload := overload q + 1\<rparr>;
          e1 = (if onOverload q1 then [Call OnOverload dropItem (mutex q1)] else []);
          e2 = (if overload q1 = 1 \<and> onFirstOverload q1
                then [Call OnFirstOverload dropItem (mutex q1)] else [])
      in (evs @ e1 @ e2, q1\<lparr>mutex := False\<rparr>))"

definition Put ::
  "(nat \<Rightarrow> nat) \<Rightarrow> ('a, 'z) PushQueue_scheme \<Rightarrow> 'a val \<Rightarrow>
   fault + ('a event list \<times> ('a, 'z) PushQueue_scheme)" where
  "Put g q item =
     (if mutex q then Inl Blocked
      else
        let q1 = q\<lparr>mutex := True\<rparr> in
        if Count q1 \<ge> Depth q1 \<or> draining q1 then
          (if dropOldestOnOverload q1 then
             (case slice_upto (items q1) 1 of
                Inl e \<Rightarrow> Inl e
              | Inr s1 \<Rightarrow>
                  (case index_at s1 0 of
                     Inl e \<Rightarrow> Inl e
                   | Inr dropItem \<Rightarrow>
                       (case slice_from (items q1) 1 of
                          Inl e \<Rightarrow> Inl e
                        | Inr s2 \<Rightarrow>
                            Inr (report_overload
                                   (q1\<lparr>items := append1 g s2 item\<rparr>)
                                   [GoDispatch] dropItem))))
           else Inr (report_overload q1 [] item))
        else
          Inr ([GoDispatch],
               q1\<lparr>items := append1 g (items q1) item, mutex := False\<rparr>))"

definition readyToWork :: "('a, 'z) PushQueue_scheme \<Rightarrow> bool" where
  "readyToWork q =
     ((started q \<or> draining q) \<and> availableWorkers q > 0 \<and> len (items q) > 0)"

definition workerCompleted ::
  "('a, 'z) PushQueue_scheme \<Rightarrow>
   fault + ('a event list \<times> ('a, 'z) PushQueue_scheme)" where
  "workerCompleted q =
     (if mutex q then Inl Blocked
      else
        let q1 = q\<lparr>mutex := True\<rparr>;
            q2 = (if availableWorkers q1 < concurrency q1
                  then q1\<lparr>availableWorkers := availableWorkers q1 + 1\<rparr> else q1)
        in
          if availableWorkers q2 = concurrency q2 \<and> len (items q2) = 0 \<and> draining q2
          then (case setDrained q2 of (evs, q3) \<Rightarrow> Inr (evs, q3\<lparr>mutex := False\<rparr>))
          else Inr ([GoDispatch], q2\<lparr>mutex := False\<rparr>))"

text \<open>
  \<^verbatim>\<open>PushQueue.get\<close> up to its \<^verbatim>\<open>Unlock\<close>: the dispatch step proper. It returns the
  item it took, if it took one.
\<close>

definition get_take ::
  "'a PushQueue \<Rightarrow> fault + ('a val option \<times> 'a PushQueue)" where
  "get_take q =
     (if \<not> readyToWork q then Inr (None, q)
      else if mutex q then Inl Blocked
      else
        let q1 = q\<lparr>mutex := True\<rparr> in
        if \<not> readyToWork q1 then Inr (None, q1\<lparr>mutex := False\<rparr>)
        else
          let q2 = q1\<lparr>availableWorkers := availableWorkers q1 - 1\<rparr> in
          (case slice_upto (items q2) 1 of
             Inl e \<Rightarrow> Inl e
           | Inr s1 \<Rightarrow>
               (case index_at s1 0 of
                  Inl e \<Rightarrow> Inl e
                | Inr item \<Rightarrow>
                    (case slice_from (items q2) 1 of
                       Inl e \<Rightarrow> Inl e
                     | Inr s2 \<Rightarrow> Inr (Some item, q2\<lparr>items := s2, mutex := False\<rparr>)))))"

text \<open>
  \<^verbatim>\<open>doWork\<close> runs the worker, waits for it, and calls \<^verbatim>\<open>workerCompleted\<close>.
\<close>

definition doWork ::
  "('a, 'z) PushQueue_scheme \<Rightarrow> 'a val \<Rightarrow>
   fault + ('a event list \<times> ('a, 'z) PushQueue_scheme)" where
  "doWork q v =
     (case workerCompleted q of
        Inl e \<Rightarrow> Inl e
      | Inr (evs, q1) \<Rightarrow> Inr (Work v # evs, q1))"

text \<open>The last statement of \<^verbatim>\<open>get\<close>, after \<^verbatim>\<open>doWork\<close> has returned.\<close>

definition get_tail :: "('a, 'z) PushQueue_scheme \<Rightarrow> 'a event list" where
  "get_tail q = (if \<not> draining q then [GoDispatch] else [])"

text \<open>One whole call of \<^verbatim>\<open>get\<close>, with nothing else running in between.\<close>

definition get :: "'a PushQueue \<Rightarrow> fault + ('a event list \<times> 'a PushQueue)" where
  "get q =
     (case get_take q of
        Inl e \<Rightarrow> Inl e
      | Inr (None, q1) \<Rightarrow> Inr ([], q1)
      | Inr (Some v, q1) \<Rightarrow>
          (case doWork q1 v of
             Inl e \<Rightarrow> Inl e
           | Inr (evs, q2) \<Rightarrow> Inr (evs @ get_tail q2, q2)))"

subsection \<open>What differs in PushBatchQueue\<close>

text \<open>
  \<^verbatim>\<open>PushBatchQueue.Start\<close> and \<^verbatim>\<open>PushBatchQueue.Drain\<close> end with \<^verbatim>\<open>go q.get()\<close>,
  and its \<^verbatim>\<open>get\<close> takes up to \<open>batchSize\<close> items.
\<close>

definition Start_batch ::
  "'a PushBatchQueue \<Rightarrow> fault + ('a event list \<times> 'a PushBatchQueue)" where
  "Start_batch q =
     (if \<not> worker q then Inl NoWorkerPanic
      else Inr ([GoDispatch], q\<lparr>started := True, draining := False, overload := 0\<rparr>))"

definition Drain_check_batch ::
  "'a PushBatchQueue \<Rightarrow> 'a event list \<times> 'a PushBatchQueue" where
  "Drain_check_batch q =
     (case Drain_check q of (evs, q1) \<Rightarrow> (evs @ [GoDispatch], q1))"

definition Drain_batch :: "'a PushBatchQueue \<Rightarrow> 'a event list \<times> 'a PushBatchQueue" where
  "Drain_batch q = Drain_check_batch (Drain_flags q)"

definition get_take_batch ::
  "'a PushBatchQueue \<Rightarrow> fault + ('a val list option \<times> 'a PushBatchQueue)" where
  "get_take_batch q =
     (if \<not> readyToWork q then Inr (None, q)
      else if mutex q then Inl Blocked
      else
        let q1 = q\<lparr>mutex := True\<rparr> in
        if \<not> readyToWork q1 then Inr (None, q1\<lparr>mutex := False\<rparr>)
        else
          let q2 = q1\<lparr>availableWorkers := availableWorkers q1 - 1\<rparr>;
              lastIndex = (if len (items q2) < batchSize q2 then len (items q2)
                           else batchSize q2)
          in
          (case slice_upto (items q2) lastIndex of
             Inl e \<Rightarrow> Inl e
           | Inr batch \<Rightarrow>
               (case slice_from (items q2) lastIndex of
                  Inl e \<Rightarrow> Inl e
                | Inr s2 \<Rightarrow>
                    Inr (Some (elems batch), q2\<lparr>items := s2, mutex := False\<rparr>))))"

definition get_batch ::
  "'a PushBatchQueue \<Rightarrow> fault + ('a event list \<times> 'a PushBatchQueue)" where
  "get_batch q =
     (case get_take_batch q of
        Inl e \<Rightarrow> Inl e
      | Inr (None, q1) \<Rightarrow> Inr ([], q1)
      | Inr (Some b, q1) \<Rightarrow>
          (case doWork q1 (SliceV b) of
             Inl e \<Rightarrow> Inl e
           | Inr (evs, q2) \<Rightarrow> Inr (evs @ get_tail q2, q2)))"

section \<open>PushStack\<close>

text \<open>
  The struct \<^verbatim>\<open>PushStack\<close> of \<^verbatim>\<open>pushStack.go\<close>. It has no
  \<^verbatim>\<open>dropOldestOnOverload\<close> field. Its fields carry the receiver's name \<open>s\<close> as a
  prefix, since the queue has fields of the same names. (The second copy of the stack
  in the sources differs from this one in its \<^verbatim>\<open>Start\<close> and \<^verbatim>\<open>Drain\<close> only, which
  end with \<^verbatim>\<open>go s.pop()\<close> there.)
\<close>

record 'a PushStack =
  s_worker :: bool
  s_concurrency :: int
  s_availableWorkers :: int
  s_height :: int
  s_items :: "'a slice"
  s_started :: bool
  s_draining :: bool
  s_overload :: "64 word"
  s_onOverload :: bool
  s_onFirstOverload :: bool
  s_onDrained :: bool
  s_mutex :: bool

definition NewPushStack :: "int \<Rightarrow> int \<Rightarrow> bool \<Rightarrow> fault + 'a PushStack" where
  "NewPushStack c h w =
     (if c < 1 then Inl ConfigPanic
      else if h < 1 then Inl ConfigPanic
      else Inr \<lparr>s_worker = w, s_concurrency = c, s_availableWorkers = c, s_height = h,
                s_items = make_slice h, s_started = False, s_draining = False,
                s_overload = 0, s_onOverload = False, s_onFirstOverload = False,
                s_onDrained = False, s_mutex = False\<rparr>)"

definition Count_stack :: "'a PushStack \<Rightarrow> int" where
  "Count_stack s = len (s_items s)"

definition Height :: "'a PushStack \<Rightarrow> int" where
  "Height s = s_height s"

definition Start_stack :: "'a PushStack \<Rightarrow> fault + ('a event list \<times> 'a PushStack)" where
  "Start_stack s =
     (if \<not> s_worker s then Inl NoWorkerPanic
      else Inr ([], s\<lparr>s_started := True, s_draining := False, s_overload := 0\<rparr>))"

definition Stop_stack :: "'a PushStack \<Rightarrow> 'a PushStack" where
  "Stop_stack s = s\<lparr>s_started := False, s_draining := False\<rparr>"

definition setDrained_stack :: "'a PushStack \<Rightarrow> 'a event list \<times> 'a PushStack" where
  "setDrained_stack s =
     ((if s_onDrained s then [GoOnDrained] else []), s\<lparr>s_draining := False\<rparr>)"

definition Drain_flags_stack :: "'a PushStack \<Rightarrow> 'a PushStack" where
  "Drain_flags_stack s = s\<lparr>s_draining := True, s_started := False\<rparr>"

definition Drain_check_stack :: "'a PushStack \<Rightarrow> 'a event list \<times> 'a PushStack" where
  "Drain_check_stack s =
     (if Count_stack s = 0 \<and> s_availableWorkers s = s_concurrency s
      then setDrained_stack s else ([], s))"

definition Drain_stack :: "'a PushStack \<Rightarrow> 'a event list \<times> 'a PushStack" where
  "Drain_stack s = Drain_check_stack (Drain_flags_stack s)"

definition Empty_stack :: "'a PushStack \<Rightarrow> fault + 'a PushStack" where
  "Empty_stack s =
     (if s_mutex s then Inl Blocked
      else Inr (s\<lparr>s_items := make_slice (Height s)\<rparr>))"

text \<open>
  \<^verbatim>\<open>Push\<close>. In its overload branch \<^verbatim>\<open>firstItem := s.items[:1]\<close> is a slice, and
  that slice is what the handlers are called with.
\<close>

definition Push ::
  "(nat \<Rightarrow> nat) \<Rightarrow> 'a PushStack \<Rightarrow> 'a val \<Rightarrow>
   fault + ('a event list \<times> 'a PushStack)" where
  "Push g s item =
     (if s_mutex s then Inl Blocked
      else
        let s1 = s\<lparr>s_mutex := True\<rparr> in
        if Count_stack s1 \<ge> Height s1 \<or> s_draining s1 then
          (case slice_upto (s_items s1) 1 of
             Inl e \<Rightarrow> Inl e
           | Inr firstItem \<Rightarrow>
               (case slice_from (s_items s1) 1 of
                  Inl e \<Rightarrow> Inl e
                | Inr rest \<Rightarrow>
                    (let s2 = s1\<lparr>s_items := append1 g rest item\<rparr>;
                         s3 = s2\<lparr>s_overload := s_overload s2 + 1\<rparr>;
                         e1 = (if s_onOverload s3
                               then [Call OnOverload (SliceV (elems firstItem)) (s_mutex s3)]
                               else []);
                         e2 = (if s_overload s3 = 1 \<and> s_onFirstOverload s3
                               then [Call OnFirstOverload (SliceV (elems firstItem))
                                       (s_mutex s3)]
                               else [])
                     in Inr ([GoDispatch] @ e1 @ e2, s3\<lparr>s_mutex := False\<rparr>))))
        else
          Inr ([GoDispatch],
               s1\<lparr>s_items := append1 g (s_items s1) item, s_mutex := False\<rparr>))"

definition readyToWork_stack :: "'a PushStack \<Rightarrow> bool" where
  "readyToWork_stack s =
     ((s_started s \<or> s_draining s) \<and> s_availableWorkers s > 0 \<and> len (s_items s) > 0)"

definition workerCompleted_stack ::
  "'a PushStack \<Rightarrow> fault + ('a event list \<times> 'a PushStack)" where
  "workerCompleted_stack s =
     (if s_mutex s then Inl Blocked
      else
        let s1 = s\<lparr>s_mutex := True\<rparr>;
            s2 = (if s_availableWorkers s1 < s_concurrency s1
                  then s1\<lparr>s_availableWorkers := s_availableWorkers s1 + 1\<rparr> else s1)
        in
          if s_draining s2 \<and> s_availableWorkers s2 = s_concurrency s2
             \<and> len (s_items s2) = 0
          then (case setDrained_stack s2 of
                  (evs, s3) \<Rightarrow> Inr (evs, s3\<lparr>s_mutex := False\<rparr>))
          else Inr ([GoDispatch], s2\<lparr>s_mutex := False\<rparr>))"

text \<open>\<^verbatim>\<open>pop\<close> up to its \<^verbatim>\<open>Unlock\<close>.\<close>

definition pop_take :: "'a PushStack \<Rightarrow> fault + ('a val option \<times> 'a PushStack)" where
  "pop_take s =
     (if \<not> readyToWork_stack s then Inr (None, s)
      else if s_mutex s then Inl Blocked
      else
        let s1 = s\<lparr>s_mutex := True\<rparr> in
        if \<not> readyToWork_stack s1 then Inr (None, s1\<lparr>s_mutex := False\<rparr>)
        else
          let s2 = s1\<lparr>s_availableWorkers := s_availableWorkers s1 - 1\<rparr>;
              lastIndex = len (s_items s2) - 1
          in
          (case slice_from (s_items s2) lastIndex of
             Inl e \<Rightarrow> Inl e
           | Inr tops \<Rightarrow>
               (case index_at tops 0 of
                  Inl e \<Rightarrow> Inl e
                | Inr item \<Rightarrow>
                    (case slice_upto (s_items s2) lastIndex of
                       Inl e \<Rightarrow> Inl e
                     | Inr rest \<Rightarrow>
                         Inr (Some item, s2\<lparr>s_items := rest, s_mutex := False\<rparr>)))))"

definition doWork_stack ::
  "'a PushStack \<Rightarrow> 'a val \<Rightarrow> fault + ('a event list \<times> 'a PushStack)" where
  "doWork_stack s v =
     (case workerCompleted_stack s of
        Inl e \<Rightarrow> Inl e
      | Inr (evs, s1) \<Rightarrow> Inr (Work v # evs, s1))"

text \<open>
  The statements of \<^verbatim>\<open>pop\<close> after \<^verbatim>\<open>doWork\<close> has returned:
  \<^verbatim>\<open>go s.worker(item)\<close>, then the conditional \<^verbatim>\<open>go s.pop()\<close>.
\<close>

definition pop_tail :: "'a PushStack \<Rightarrow> 'a val \<Rightarrow> 'a event list" where
  "pop_tail s v = GoWorker v # (if \<not> s_draining s then [GoDispatch] else [])"

definition pop :: "'a PushStack \<Rightarrow> fault + ('a event list \<times> 'a PushStack)" where
  "pop s =
     (case pop_take s of
        Inl e \<Rightarrow> Inl e
      | Inr (None, s1) \<Rightarrow> Inr ([], s1)
      | Inr (Some v, s1) \<Rightarrow>
          (case doWork_stack s1 v of
             Inl e \<Rightarrow> Inl e
           | Inr (evs, s2) \<Rightarrow> Inr (evs @ pop_tail s2 v, s2)))"

section \<open>Interleavings\<close>

text \<open>
  The goroutines of a program interleave at the grain of the steps below: a critical
  section (the part of a method between \<^verbatim>\<open>Lock\<close> and \<^verbatim>\<open>Unlock\<close>) is one step, and
  so is each group of statements of a method that takes no lock. \<open>OpTake\<close> is a
  dispatch step up to its \<^verbatim>\<open>Unlock\<close>, together with the worker call it leads to;
  \<open>OpCompleted\<close> is the return of a worker: \<^verbatim>\<open>workerCompleted\<close> and the last
  statement of \<^verbatim>\<open>get\<close>. A run is a list of steps and stops at the first panic.
\<close>

datatype 'a op =
    OpPut "'a val"
  | OpTake
  | OpCompleted
  | OpStart
  | OpStop
  | OpDrainFlags
  | OpDrainCheck
  | OpEmpty
  | OpDropOldest

fun step ::
  "(nat \<Rightarrow> nat) \<Rightarrow> 'a PushQueue \<Rightarrow> 'a op \<Rightarrow> fault + ('a event list \<times> 'a PushQueue)"
where
  "step g q (OpPut v) = Put g q v"
| "step g q OpTake =
     (case get_take q of
        Inl e \<Rightarrow> Inl e
      | Inr (None, q1) \<Rightarrow> Inr ([], q1)
      | Inr (Some v, q1) \<Rightarrow> Inr ([Work v], q1))"
| "step g q OpCompleted =
     (case workerCompleted q of
        Inl e \<Rightarrow> Inl e
      | Inr (evs, q1) \<Rightarrow> Inr (evs @ get_tail q1, q1))"
| "step g q OpStart = Start q"
| "step g q OpStop = Inr ([], Stop q)"
| "step g q OpDrainFlags = Inr ([], Drain_flags q)"
| "step g q OpDrainCheck = Inr (Drain_check q)"
| "step g q OpEmpty = (case Empty q of Inl e \<Rightarrow> Inl e | Inr q1 \<Rightarrow> Inr ([], q1))"
| "step g q OpDropOldest = Inr ([], DropOldestOnOverload q)"

fun run ::
  "(nat \<Rightarrow> nat) \<Rightarrow> 'a PushQueue \<Rightarrow> 'a op list \<Rightarrow>
   fault + ('a event list \<times> 'a PushQueue)"
where
  "run g q [] = Inr ([], q)"
| "run g q (x # xs) =
     (case step g q x of
        Inl e \<Rightarrow> Inl e
      | Inr (evs, q1) \<Rightarrow>
          (case run g q1 xs of
             Inl e \<Rightarrow> Inl e
           | Inr (evs', q2) \<Rightarrow> Inr (evs @ evs', q2)))"

fun step_batch ::
  "(nat \<Rightarrow> nat) \<Rightarrow> 'a PushBatchQueue \<Rightarrow> 'a op \<Rightarrow>
   fault + ('a event list \<times> 'a PushBatchQueue)"
where
  "step_batch g q (OpPut v) = Put g q v"
| "step_batch g q OpTake =
     (case get_take_batch q of
        Inl e \<Rightarrow> Inl e
      | Inr (None, q1) \<Rightarrow> Inr ([], q1)
      | Inr (Some b, q1) \<Rightarrow> Inr ([Work (SliceV b)], q1))"
| "step_batch g q OpCompleted =
     (case workerCompleted q of
        Inl e \<Rightarrow> Inl e
      | Inr (evs, q1) \<Rightarrow> Inr (evs @ get_tail q1, q1))"
| "step_batch g q OpStart = Start_batch q"
| "step_batch g q OpStop = Inr ([], Stop q)"
| "step_batch g q OpDrainFlags = Inr ([], Drain_flags q)"
| "step_batch g q OpDrainCheck = Inr (Drain_check_batch q)"
| "step_batch g q OpEmpty = (case Empty q of Inl e \<Rightarrow> Inl e | Inr q1 \<Rightarrow> Inr ([], q1))"
| "step_batch g q OpDropOldest = Inr ([], DropOldestOnOverload q)"

fun run_batch ::
  "(nat \<Rightarrow> nat) \<Rightarrow> 'a PushBatchQueue \<Rightarrow> 'a op list \<Rightarrow>
   fault + ('a event list \<times> 'a PushBatchQueue)"
where
  "run_batch g q [] = Inr ([], q)"
| "run_batch g q (x # xs) =
     (case step_batch g q x of
        Inl e \<Rightarrow> Inl e
      | Inr (evs, q1) \<Rightarrow>
          (case run_batch g q1 xs of
             Inl e \<Rightarrow> Inl e
           | Inr (evs', q2) \<Rightarrow> Inr (evs @ evs', q2)))"

text \<open>The stack has no \<^verbatim>\<open>DropOldestOnOverload\<close> method.\<close>

datatype 'a sop =
    SPush "'a val"
  | STake
  | SCompleted "'a val"
  | SStart
  | SStop
  | SDrainFlags
  | SDrainCheck
  | SEmpty

fun step_stack ::
  "(nat \<Rightarrow> nat) \<Rightarrow> 'a PushStack \<Rightarrow> 'a sop \<Rightarrow> fault + ('a event list \<times> 'a PushStack)"
where
  "step_stack g s (SPush v) = Push g s v"
| "step_stack g s STake =
     (case pop_take s of
        Inl e \<Rightarrow> Inl e
      | Inr (None, s1) \<Rightarrow> Inr ([], s1)
      | Inr (Some v, s1) \<Rightarrow> Inr ([Work v], s1))"
| "step_stack g s (SCompleted v) =
     (case workerCompleted_stack s of
        Inl e \<Rightarrow> Inl e
      | Inr (evs, s1) \<Rightarrow> Inr (evs @ pop_tail s1 v, s1))"
| "step_stack g s SStart = Start_stack s"
| "step_stack g s SStop = Inr ([], Stop_stack s)"
| "step_stack g s SDrainFlags = Inr ([], Drain_flags_stack s)"
| "step_stack g s SDrainCheck = Inr (Drain_check_stack s)"
| "step_stack g s SEmpty =
     (case Empty_stack s of Inl e \<Rightarrow> Inl e | Inr s1 \<Rightarrow> Inr ([], s1))"

fun run_stack ::
  "(nat \<Rightarrow> nat) \<Rightarrow> 'a PushStack \<Rightarrow> 'a sop list \<Rightarrow>
   fault + ('a event list \<times> 'a PushStack)"
where
  "run_stack g s [] = Inr ([], s)"
| "run_stack g s (x # xs) =
     (case step_stack g s x of
        Inl e \<Rightarrow> Inl e
      | Inr (evs, s1) \<Rightarrow>
          (case run_stack g s1 xs of
             Inl e \<Rightarrow> Inl e
           | Inr (evs', s2) \<Rightarrow> Inr (evs @ evs', s2)))"

text \<open>Insertions one after the other, with no other step in between.\<close>

fun puts ::
  "(nat \<Rightarrow> nat) \<Rightarrow> ('a, 'z) PushQueue_scheme \<Rightarrow> 'a val list \<Rightarrow>
   fault + ('a event list \<times> ('a, 'z) PushQueue_scheme)"
where
  "puts g q [] = Inr ([], q)"
| "puts g q (x # xs) =
     (case Put g q x of
        Inl e \<Rightarrow> Inl e
      | Inr (evs, q1) \<Rightarrow>
          (case puts g q1 xs of
             Inl e \<Rightarrow> Inl e
           | Inr (evs', q2) \<Rightarrow> Inr (evs @ evs', q2)))"

fun pushes ::
  "(nat \<Rightarrow> nat) \<Rightarrow> 'a PushStack \<Rightarrow> 'a val list \<Rightarrow>
   fault + ('a event list \<times> 'a PushStack)"
where
  "pushes g s [] = Inr ([], s)"
| "pushes g s (x # xs) =
     (case Push g s x of
        Inl e \<Rightarrow> Inl e
      | Inr (evs, s1) \<Rightarrow>
          (case pushes g s1 xs of
             Inl e \<Rightarrow> Inl e
           | Inr (evs', s2) \<Rightarrow> Inr (evs @ evs', s2)))"




section \<open>The bounds on the worker slots and on the buffer\<close>

definition bounds :: "('a, 'z) PushQueue_scheme \<Rightarrow> bool" where
  "bounds q =
     (0 \<le> availableWorkers q \<and> availableWorkers q \<le> concurrency q
      \<and> 0 \<le> len (items q) \<and> len (items q) \<le> depth q)"

definition bounds_stack :: "'a PushStack \<Rightarrow> bool" where
  "bounds_stack s =
     (0 \<le> s_availableWorkers s \<and> s_availableWorkers s \<le> s_concurrency s
      \<and> 0 \<le> len (s_items s) \<and> len (s_items s) \<le> s_height s)"

section \<open>Concrete machines\<close>

text \<open>A growth policy for \<^verbatim>\<open>append\<close>: the new array is twice as long.\<close>

definition double_cap :: "nat \<Rightarrow> nat" where
  "double_cap n = 2 * n"

text \<open>
  A queue of depth 3 and a stack of height 3, both started, with the three handlers
  set, holding A, B and C (A put first).
\<close>

definition queue_ABC :: "string PushQueue" where
  "queue_ABC =
     \<lparr>worker = True, concurrency = 1, availableWorkers = 1, depth = 3,
      items = \<lparr>elems = [Item ''A'', Item ''B'', Item ''C''], spare = []\<rparr>,
      started = True, draining = False, overload = 0,
      dropOldestOnOverload = False, onOverload = True,
      onFirstOverload = True, onDrained = True, mutex = False\<rparr>"

definition stack_ABC :: "string PushStack" where
  "stack_ABC =
     \<lparr>s_worker = True, s_concurrency = 1, s_availableWorkers = 1, s_height = 3,
      s_items = \<lparr>elems = [Item ''A'', Item ''B'', Item ''C''], spare = []\<rparr>,
      s_started = True, s_draining = False, s_overload = 0,
      s_onOverload = True, s_onFirstOverload = True, s_onDrained = True,
      s_mutex = False\<rparr>"

text \<open>
  A stack of height 3 that holds A and B when \<^verbatim>\<open>Drain\<close> is called; and a queue of
  depth 2 and a stack of height 2 whose only item is with the worker when
  \<^verbatim>\<open>Drain\<close> is called, so that both are draining with an empty buffer.
\<close>

definition stack_AB_draining :: "string PushStack" where
  "stack_AB_draining =
     \<lparr>s_worker = True, s_concurrency = 1, s_availableWorkers = 1, s_height = 3,
      s_items = \<lparr>elems = [Item ''A'', Item ''B''], spare = [NilV]\<rparr>,
      s_started = False, s_draining = True, s_overload = 0,
      s_onOverload = True, s_onFirstOverload = True, s_onDrained = True,
      s_mutex = False\<rparr>"

definition queue_busy_draining :: "string PushQueue" where
  "queue_busy_draining =
     \<lparr>worker = True, concurrency = 1, availableWorkers = 0, depth = 2,
      items = \<lparr>elems = [], spare = [NilV]\<rparr>,
      started = False, draining = True, overload = 0,
      dropOldestOnOverload = True, onOverload = True,
      onFirstOverload = True, onDrained = True, mutex = False\<rparr>"

definition stack_busy_draining :: "string PushStack" where
  "stack_busy_draining =
     \<lparr>s_worker = True, s_concurrency = 1, s_availableWorkers = 0, s_height = 2,
      s_items = \<lparr>elems = [], spare = [Item ''A'', NilV]\<rparr>,
      s_started = False, s_draining = True, s_overload = 0,
      s_onOverload = True, s_onFirstOverload = True, s_onDrained = True,
      s_mutex = False\<rparr>"

text \<open>A started batch queue of depth 5 and batch size 2 that holds A, B and C.\<close>

definition batch_ABC :: "string PushBatchQueue" where
  "batch_ABC =
     \<lparr>worker = True, concurrency = 2, availableWorkers = 2, depth = 5,
      items = \<lparr>elems = [Item ''A'', Item ''B'', Item ''C''], spare = [NilV, NilV]\<rparr>,
      started = True, draining = False, overload = 0,
      dropOldestOnOverload = False, onOverload = True,
      onFirstOverload = True, onDrained = True, mutex = False, batchSize = 2\<rparr>"

text \<open>
  A client program: it constructs the machine, sets the handlers that are not nil, and
  then the steps of its goroutines happen in some order.
\<close>

definition program ::
  "(nat \<Rightarrow> nat) \<Rightarrow> int \<Rightarrow> int \<Rightarrow> bool \<Rightarrow> bool \<Rightarrow> bool \<Rightarrow> bool \<Rightarrow> 'a op list \<Rightarrow>
   fault + ('a event list \<times> 'a PushQueue)" where
  "program g c d w h1 h2 h3 ops =
     (case NewPushQueue c d w of
        Inl e \<Rightarrow> Inl e
      | Inr q \<Rightarrow>
          run g (q\<lparr>onOverload := h1, onFirstOverload := h2, onDrained := h3\<rparr>) ops)"

definition program_batch ::
  "(nat \<Rightarrow> nat) \<Rightarrow> int \<Rightarrow> int \<Rightarrow> int \<Rightarrow> bool \<Rightarrow> bool \<Rightarrow> bool \<Rightarrow> bool \<Rightarrow> 'a op list \<Rightarrow>
   fault + ('a event list \<times> 'a PushBatchQueue)" where
  "program_batch g c d b w h1 h2 h3 ops =
     (case NewPushBatchQueue c d b w of
        Inl e \<Rightarrow> Inl e
      | Inr q \<Rightarrow>
          run_batch g (q\<lparr>onOverload := h1, onFirstOverload := h2, onDrained := h3\<rparr>) ops)"

definition program_stack ::
  "(nat \<Rightarrow> nat) \<Rightarrow> int \<Rightarrow> int \<Rightarrow> bool \<Rightarrow> bool \<Rightarrow> bool \<Rightarrow> bool \<Rightarrow> 'a sop list \<Rightarrow>
   fault + ('a event list \<times> 'a PushStack)" where
  "program_stack g c h w h1 h2 h3 ops =
     (case NewPushStack c h w of
        Inl e \<Rightarrow> Inl e
      | Inr s \<Rightarrow>
          run_stack g
            (s\<lparr>s_onOverload := h1, s_onFirstOverload := h2, s_onDrained := h3\<rparr>) ops)"

section \<open>Slices and event lists\<close>

lemma len_make_slice: "len (make_slice n) = 0"
  by (simp add: len_def make_slice_def)

lemma elems_make_slice: "elems (make_slice n) = []"
  by (simp add: make_slice_def)

lemma elems_append1: "elems (append1 g s x) = elems s @ [x]"
  by (simp add: append1_def split: list.splits)

lemma len_append1: "len (append1 g s x) = len s + 1"
  by (simp add: len_def elems_append1)

lemma len_mk: "len \<lparr>elems = xs, spare = ys\<rparr> = int (length xs)"
  by (simp add: len_def)

lemma len_nonneg: "0 \<le> len s"
  by (simp add: len_def)

lemma len_le_cap: "len s \<le> cap s"
  by (simp add: len_def cap_def)

lemma slice_from_1_Cons:
  "elems s = a # as \<Longrightarrow> slice_from s 1 = Inr \<lparr>elems = as, spare = spare s\<rparr>"
  by (simp add: slice_from_def len_def)

lemma slice_from_1_Nil: "elems s = [] \<Longrightarrow> slice_from s 1 = Inl BoundsPanic"
  by (simp add: slice_from_def len_def)

lemma head_Cons:
  "elems s = a # as \<Longrightarrow>
   slice_upto s 1 = Inr \<lparr>elems = [a], spare = as @ spare s\<rparr>"
  by (simp add: slice_upto_def cap_def)

lemma index_at_0: "index_at \<lparr>elems = a # as, spare = sp\<rparr> 0 = Inr a"
  by (simp add: index_at_def len_def)

lemma slice_upto_Inl: "slice_upto s h = Inl e \<Longrightarrow> e = BoundsPanic"
  by (simp add: slice_upto_def split: if_splits)

lemma slice_from_Inl: "slice_from s l = Inl e \<Longrightarrow> e = BoundsPanic"
  by (simp add: slice_from_def split: if_splits)

lemma index_at_Inl: "index_at s i = Inl e \<Longrightarrow> e = BoundsPanic"
  by (simp add: index_at_def split: if_splits)

section \<open>The branches of Put and Push\<close>

lemma Put_blocked: "mutex q \<Longrightarrow> Put g q x = Inl Blocked"
  by (simp add: Put_def)

lemma Put_accept:
  "\<not> mutex q \<Longrightarrow> Count q < Depth q \<Longrightarrow> \<not> draining q \<Longrightarrow>
   Put g q x = Inr ([GoDispatch], q\<lparr>items := append1 g (items q) x, mutex := False\<rparr>)"
  by (simp add: Put_def Count_def Depth_def Let_def)

lemma Put_drop_incoming:
  "\<not> mutex q \<Longrightarrow> Count q \<ge> Depth q \<or> draining q \<Longrightarrow> \<not> dropOldestOnOverload q \<Longrightarrow>
   Put g q x = Inr (report_overload (q\<lparr>mutex := True\<rparr>) [] x)"
  by (auto simp add: Put_def Count_def Depth_def Let_def)

lemma Put_drop_oldest:
  "\<not> mutex q \<Longrightarrow> Count q \<ge> Depth q \<or> draining q \<Longrightarrow> dropOldestOnOverload q \<Longrightarrow>
   elems (items q) = a # as \<Longrightarrow>
   Put g q x =
     Inr (report_overload
            (q\<lparr>mutex := True, items := append1 g \<lparr>elems = as, spare = spare (items q)\<rparr> x\<rparr>)
            [GoDispatch] a)"
  by (auto simp add: Put_def Count_def Depth_def Let_def head_Cons index_at_0 slice_from_1_Cons)

lemma Put_drop_oldest_empty:
  "\<not> mutex q \<Longrightarrow> Count q \<ge> Depth q \<or> draining q \<Longrightarrow> dropOldestOnOverload q \<Longrightarrow>
   elems (items q) = [] \<Longrightarrow> Put g q x = Inl BoundsPanic"
  by (auto simp add: Put_def Count_def Depth_def Let_def slice_from_1_Nil split: sum.splits
      dest: slice_upto_Inl index_at_Inl)


lemma worker_calls_append: "worker_calls (xs @ ys) = worker_calls xs @ worker_calls ys"
  by (induction xs rule: worker_calls.induct) simp_all

lemma handler_calls_append:
  "handler_calls h (xs @ ys) = handler_calls h xs @ handler_calls h ys"
  by (induction h xs rule: handler_calls.induct) simp_all

lemma drained_calls_append: "drained_calls (xs @ ys) = drained_calls xs + drained_calls ys"
  by (induction xs rule: drained_calls.induct) simp_all

lemma dispatch_calls_append:
  "dispatch_calls (xs @ ys) = dispatch_calls xs + dispatch_calls ys"
  by (induction xs rule: dispatch_calls.induct) simp_all

lemma Push_blocked: "s_mutex s \<Longrightarrow> Push g s x = Inl Blocked"
  by (simp add: Push_def)

lemma Push_accept:
  "\<not> s_mutex s \<Longrightarrow> Count_stack s < Height s \<Longrightarrow> \<not> s_draining s \<Longrightarrow>
   Push g s x =
     Inr ([GoDispatch], s\<lparr>s_items := append1 g (s_items s) x, s_mutex := False\<rparr>)"
  by (simp add: Push_def Count_stack_def Height_def Let_def)

lemma Push_overload:
  "\<not> s_mutex s \<Longrightarrow> Count_stack s \<ge> Height s \<or> s_draining s \<Longrightarrow>
   elems (s_items s) = a # as \<Longrightarrow>
   Push g s x =
     Inr ([GoDispatch]
          @ (if s_onOverload s then [Call OnOverload (SliceV [a]) True] else [])
          @ (if s_overload s + 1 = 1 \<and> s_onFirstOverload s
             then [Call OnFirstOverload (SliceV [a]) True] else []),
          s\<lparr>s_items := append1 g \<lparr>elems = as, spare = spare (s_items s)\<rparr> x,
            s_overload := s_overload s + 1, s_mutex := False\<rparr>)"
  by (auto simp add: Push_def Count_stack_def Height_def Let_def head_Cons slice_from_1_Cons)

lemma Push_overload_empty:
  "\<not> s_mutex s \<Longrightarrow> Count_stack s \<ge> Height s \<or> s_draining s \<Longrightarrow>
   elems (s_items s) = [] \<Longrightarrow> Push g s x = Inl BoundsPanic"
  by (auto simp add: Push_def Count_stack_def Height_def Let_def slice_from_1_Nil
      split: sum.splits dest: slice_upto_Inl)

lemma report_overload_simps:
  "fst (report_overload q evs d) =
     evs @ (if onOverload q then [Call OnOverload d (mutex q)] else [])
         @ (if overload q + 1 = 1 \<and> onFirstOverload q
            then [Call OnFirstOverload d (mutex q)] else [])"
  "snd (report_overload q evs d) = q\<lparr>overload := overload q + 1, mutex := False\<rparr>"
  by (simp_all add: report_overload_def Let_def)

section \<open>Worker calls of one dispatch\<close>

lemma get_worker_once:
  assumes "readyToWork q" "\<not> mutex q"
  shows "\<exists>a as evs q'. elems (items q) = a # as \<and> get q = Inr (evs, q')
           \<and> worker_calls evs = [a] \<and> elems (items q') = as"
proof -
  from assms(1) obtain a as where e: "elems (items q) = a # as"
    by (cases "elems (items q)") (auto simp: readyToWork_def len_def)
  have t: "get_take q =
      Inr (Some a, q\<lparr>mutex := True, availableWorkers := availableWorkers q - 1,
                     items := \<lparr>elems = as, spare = spare (items q)\<rparr>, mutex := False\<rparr>)"
    using assms e
    by (simp add: get_take_def readyToWork_def Let_def head_Cons index_at_0 slice_from_1_Cons)
  show ?thesis
    using e
    by (auto simp add: get_def t doWork_def workerCompleted_def setDrained_def get_tail_def
        Let_def worker_calls_append)
qed

lemma get_batch_worker_once:
  assumes "readyToWork q" "\<not> mutex q" "1 \<le> batchSize q"
  shows "\<exists>evs q'. get_batch q = Inr (evs, q')
           \<and> worker_calls evs = [SliceV (take (nat (batchSize q)) (elems (items q)))]
           \<and> elems (items q') = drop (nat (batchSize q)) (elems (items q))"
proof -
  let ?n = "if len (items q) < batchSize q then len (items q) else batchSize q"
  have n: "0 \<le> ?n" "?n \<le> len (items q)" "?n \<le> cap (items q)"
    using assms(3) by (auto simp: len_def cap_def)
  have tk: "take (nat ?n) (elems (items q)) = take (nat (batchSize q)) (elems (items q))"
    by (auto simp: len_def)
  have dr: "drop (nat ?n) (elems (items q)) = drop (nat (batchSize q)) (elems (items q))"
    by (auto simp: len_def)
  have t: "get_take_batch q =
      Inr (Some (take (nat (batchSize q)) (elems (items q))),
           q\<lparr>mutex := True, availableWorkers := availableWorkers q - 1,
             items := \<lparr>elems = drop (nat (batchSize q)) (elems (items q)),
                       spare = spare (items q)\<rparr>, mutex := False\<rparr>)"
    using assms n tk dr
    by (simp add: get_take_batch_def readyToWork_def Let_def slice_upto_def slice_from_def
        len_def cap_def)
  show ?thesis
    by (auto simp add: get_batch_def t doWork_def workerCompleted_def setDrained_def
        get_tail_def Let_def worker_calls_append)
qed

lemma pop_worker_twice:
  assumes "readyToWork_stack s" "\<not> s_mutex s"
  shows "\<exists>evs s'. pop s = Inr (evs, s')
           \<and> worker_calls evs = [last (elems (s_items s)), last (elems (s_items s))]
           \<and> elems (s_items s') = butlast (elems (s_items s))"
proof -
  let ?xs = "elems (s_items s)"
  from assms(1) have ne: "?xs \<noteq> []"
    by (auto simp: readyToWork_stack_def len_def)
  then have l: "0 \<le> len (s_items s) - 1" "len (s_items s) - 1 \<le> len (s_items s)"
    "len (s_items s) - 1 \<le> cap (s_items s)"
    by (auto simp: len_def cap_def Suc_le_eq)
  have n: "nat (len (s_items s) - 1) = length ?xs - 1"
    by (simp add: len_def)
  have d: "drop (length ?xs - Suc 0) ?xs = [last ?xs]"
    using ne by (metis One_nat_def append_butlast_last_id append_eq_conv_conj length_butlast)
  have tk: "take (length ?xs - Suc 0) ?xs = butlast ?xs"
    by (simp add: butlast_conv_take)
  have nth: "?xs ! (length ?xs - Suc 0) = last ?xs"
    using ne by (simp add: last_conv_nth)
  have t: "pop_take s =
      Inr (Some (last ?xs),
           s\<lparr>s_mutex := True, s_availableWorkers := s_availableWorkers s - 1,
             s_items := \<lparr>elems = butlast ?xs, spare = last ?xs # spare (s_items s)\<rparr>,
             s_mutex := False\<rparr>)"
    using assms ne
    by (simp add: pop_take_def readyToWork_stack_def Let_def slice_from_def slice_upto_def
        index_at_def l n d tk nth len_mk)
  show ?thesis
    by (auto simp add: pop_def t doWork_stack_def workerCompleted_stack_def
        setDrained_stack_def pop_tail_def Let_def worker_calls_append)
qed

section \<open>Evaluating concrete machines\<close>

lemmas prog_defs = program_def program_stack_def program_batch_def NewPushQueue_def NewPushStack_def
  NewPushBatchQueue_def make_slice_def

lemmas q_defs = Put_def report_overload_def Count_def Depth_def get_take_def readyToWork_def
  workerCompleted_def setDrained_def get_tail_def Start_def Stop_def Drain_flags_def Drain_check_def
  Empty_def DropOldestOnOverload_def Start_batch_def Drain_check_batch_def get_take_batch_def

lemmas s_defs = Push_def Count_stack_def Height_def pop_take_def readyToWork_stack_def
  workerCompleted_stack_def setDrained_stack_def pop_tail_def Start_stack_def Stop_stack_def
  Drain_flags_stack_def Drain_check_stack_def Empty_stack_def

lemmas sl_defs = len_def cap_def slice_upto_def slice_from_def index_at_def append1_def double_cap_def
  eval_nat_numeral

text \<open>The concrete machines are states of programs.\<close>

lemma batch_ABC_reached:
  "program_batch double_cap 2 5 2 True True True True
     [OpStart, OpPut (Item ''A''), OpPut (Item ''B''), OpPut (Item ''C'')] =
   Inr ([GoDispatch, GoDispatch, GoDispatch, GoDispatch], batch_ABC)"
  by (simp add: prog_defs q_defs sl_defs batch_ABC_def)

lemma queue_ABC_reached:
  "program double_cap 1 3 True True True True
     [OpStart, OpPut (Item ''A''), OpPut (Item ''B''), OpPut (Item ''C'')] =
   Inr ([GoDispatch, GoDispatch, GoDispatch], queue_ABC)"
  by (simp add: prog_defs q_defs sl_defs queue_ABC_def)

lemma stack_ABC_reached:
  "program_stack double_cap 1 3 True True True True
     [SStart, SPush (Item ''A''), SPush (Item ''B''), SPush (Item ''C'')] =
   Inr ([GoDispatch, GoDispatch, GoDispatch], stack_ABC)"
  by (simp add: prog_defs s_defs sl_defs stack_ABC_def)

lemma stack_AB_draining_reached:
  "program_stack double_cap 1 3 True True True True
     [SPush (Item ''A''), SPush (Item ''B''), SDrainFlags, SDrainCheck] =
   Inr ([GoDispatch, GoDispatch], stack_AB_draining)"
  by (simp add: prog_defs s_defs sl_defs stack_AB_draining_def)

lemma queue_busy_draining_reached:
  "program double_cap 1 2 True True True True
     [OpDropOldest, OpStart, OpPut (Item ''A''), OpTake, OpDrainFlags, OpDrainCheck] =
   Inr ([GoDispatch, Work (Item ''A'')], queue_busy_draining)"
  by (simp add: prog_defs q_defs sl_defs queue_busy_draining_def)

lemma stack_busy_draining_reached:
  "program_stack double_cap 1 2 True True True True
     [SStart, SPush (Item ''A''), STake, SDrainFlags, SDrainCheck] =
   Inr ([GoDispatch, Work (Item ''A'')], stack_busy_draining)"
  by (simp add: prog_defs s_defs sl_defs stack_busy_draining_def)

section \<open>What each branch of an insertion returns\<close>

lemma Put_drop_incoming_result:
  assumes "\<not> mutex q" "Count q \<ge> Depth q \<or> draining q" "\<not> dropOldestOnOverload q"
  shows "Put g q x =
     Inr ((if onOverload q then [Call OnOverload x True] else [])
          @ (if overload q + 1 = 1 \<and> onFirstOverload q
             then [Call OnFirstOverload x True] else []),
          q\<lparr>overload := overload q + 1\<rparr>)"
  using assms by (simp add: Put_drop_incoming report_overload_def Let_def)

lemma Put_drop_oldest_result:
  assumes "\<not> mutex q" "Count q \<ge> Depth q \<or> draining q" "dropOldestOnOverload q"
    "elems (items q) = a # as"
  shows "Put g q x =
     Inr ([GoDispatch]
          @ (if onOverload q then [Call OnOverload a True] else [])
          @ (if overload q + 1 = 1 \<and> onFirstOverload q
             then [Call OnFirstOverload a True] else []),
          q\<lparr>items := append1 g \<lparr>elems = as, spare = spare (items q)\<rparr> x,
            overload := overload q + 1\<rparr>)"
  using assms by (simp add: Put_drop_oldest report_overload_def Let_def)

lemma Put_accept_result:
  assumes "\<not> mutex q" "Count q < Depth q" "\<not> draining q"
  shows "Put g q x = Inr ([GoDispatch], q\<lparr>items := append1 g (items q) x\<rparr>)"
  using assms by (simp add: Put_accept)

lemma Push_accept_result:
  assumes "\<not> s_mutex s" "Count_stack s < Height s" "\<not> s_draining s"
  shows "Push g s x = Inr ([GoDispatch], s\<lparr>s_items := append1 g (s_items s) x\<rparr>)"
  using assms by (simp add: Push_accept)

lemma Push_overload_result:
  assumes "\<not> s_mutex s" "Count_stack s \<ge> Height s \<or> s_draining s"
    "elems (s_items s) = a # as"
  shows "Push g s x =
     Inr ([GoDispatch]
          @ (if s_onOverload s then [Call OnOverload (SliceV [a]) True] else [])
          @ (if s_overload s + 1 = 1 \<and> s_onFirstOverload s
             then [Call OnFirstOverload (SliceV [a]) True] else []),
          s\<lparr>s_items := append1 g \<lparr>elems = as, spare = spare (s_items s)\<rparr> x,
            s_overload := s_overload s + 1\<rparr>)"
  using assms by (simp add: Push_overload)


section \<open>Worker calls per dispatched unit\<close>

text \<open>
  C1. Each unit that a dispatch step removes from the buffer should lead to exactly one
  call of the worker with that unit. \<open>get_worker_once\<close> and \<open>get_batch_worker_once\<close>
  show it for the queue and the batch queue. \<^verbatim>\<open>PushStack.pop\<close> calls
  \<^verbatim>\<open>s.doWork(item)\<close>, which runs the worker, and then \<^verbatim>\<open>go s.worker(item)\<close>: on the
  stack that holds A, B and C, one \<^verbatim>\<open>pop\<close> removes C and runs the worker on C twice
  (\<open>pop_worker_twice\<close> is the same fact for every stack that is ready to work).
\<close>

theorem stack_pop_calls_worker_twice:
  "pop stack_ABC =
     Inr ([Work (Item ''C''), GoDispatch, GoWorker (Item ''C''), GoDispatch],
          stack_ABC\<lparr>s_items := \<lparr>elems = [Item ''A'', Item ''B''], spare = [Item ''C'']\<rparr>\<rparr>)
   \<and> worker_calls [Work (Item ''C''), GoDispatch, GoWorker (Item ''C''), GoDispatch]
       = [Item ''C'', Item ''C'']"
  by (simp add: pop_def doWork_stack_def stack_ABC_def s_defs sl_defs)

section \<open>Overload without the drop-oldest flag\<close>

text \<open>
  The stack has no \<^verbatim>\<open>dropOldestOnOverload\<close> flag, and an overloaded \<^verbatim>\<open>Push\<close> does not
  leave its buffer alone: the draining stack that holds A and B holds B and C after
  \<^verbatim>\<open>Push(C)\<close>, and its handlers are not called with C.
\<close>

theorem stack_push_overload_changes_buffer:
  "Push double_cap stack_AB_draining (Item ''C'') =
     Inr ([GoDispatch, Call OnOverload (SliceV [Item ''A'']) True,
           Call OnFirstOverload (SliceV [Item ''A'']) True],
          stack_AB_draining
            \<lparr>s_items := \<lparr>elems = [Item ''B'', Item ''C''], spare = []\<rparr>, s_overload := 1\<rparr>)"
  by (simp add: stack_AB_draining_def s_defs sl_defs)

text \<open>
  C2, amended. In the queue and the batch queue (\<open>Put\<close> is the method of both), when
  \<^verbatim>\<open>dropOldestOnOverload\<close> is false, an overloaded \<^verbatim>\<open>Put\<close> (buffer at capacity, or
  draining) changes nothing but the overload counter, so the buffer is unchanged, and
  the value the overload handlers are called with is the incoming item. The stack has
  no such flag: an overloaded \<^verbatim>\<open>Push\<close> on a stack that holds an item always evicts
  the oldest item and appends the incoming one.
\<close>

theorem drop_incoming_keeps_buffer:
  assumes "\<not> mutex q" "Count q \<ge> Depth q \<or> draining q" "\<not> dropOldestOnOverload q"
    and "\<not> s_mutex s" "Count_stack s \<ge> Height s \<or> s_draining s"
      "elems (s_items s) = a # as"
  shows "Put g q x =
           Inr ((if onOverload q then [Call OnOverload x True] else [])
                @ (if overload q + 1 = 1 \<and> onFirstOverload q
                   then [Call OnFirstOverload x True] else []),
                q\<lparr>overload := overload q + 1\<rparr>)
         \<and> items (q\<lparr>overload := overload q + 1\<rparr>) = items q
         \<and> (\<exists>evs s'. Push g s y = Inr (evs, s') \<and> elems (s_items s') = as @ [y])"
  using assms by (simp add: Put_drop_incoming_result Push_overload_result elems_append1)

theorem drop_incoming_keeps_buffer_witness:
  "\<not> mutex queue_ABC \<and> (Count queue_ABC \<ge> Depth queue_ABC \<or> draining queue_ABC)
   \<and> \<not> dropOldestOnOverload queue_ABC
   \<and> \<not> s_mutex stack_ABC \<and> (Count_stack stack_ABC \<ge> Height stack_ABC \<or> s_draining stack_ABC)
   \<and> elems (s_items stack_ABC) = Item ''A'' # [Item ''B'', Item ''C'']
   \<and> Put double_cap queue_ABC (Item ''D'') =
        Inr ([Call OnOverload (Item ''D'') True, Call OnFirstOverload (Item ''D'') True],
             queue_ABC\<lparr>overload := 1\<rparr>)
   \<and> items (queue_ABC\<lparr>overload := 1\<rparr>) = items queue_ABC
   \<and> (\<exists>evs s'. Push double_cap stack_ABC (Item ''D'') = Inr (evs, s')
         \<and> elems (s_items s') = [Item ''B'', Item ''C''] @ [Item ''D''])"
proof -
  have h1: "\<not> mutex queue_ABC" by (simp add: queue_ABC_def)
  have h2: "Count queue_ABC \<ge> Depth queue_ABC \<or> draining queue_ABC"
    by (simp add: queue_ABC_def Count_def Depth_def len_def)
  have h3: "\<not> dropOldestOnOverload queue_ABC" by (simp add: queue_ABC_def)
  have h4: "\<not> s_mutex stack_ABC" by (simp add: stack_ABC_def)
  have h5: "Count_stack stack_ABC \<ge> Height stack_ABC \<or> s_draining stack_ABC"
    by (simp add: stack_ABC_def Count_stack_def Height_def len_def)
  have h6: "elems (s_items stack_ABC) = Item ''A'' # [Item ''B'', Item ''C'']"
    by (simp add: stack_ABC_def)
  have q: "onOverload queue_ABC" "onFirstOverload queue_ABC" "overload queue_ABC = 0"
    by (simp_all add: queue_ABC_def)
  from drop_incoming_keeps_buffer [OF h1 h2 h3 h4 h5 h6, of double_cap "Item ''D''" "Item ''D''"]
  show ?thesis using h1 h2 h3 h4 h5 h6 by (simp add: q)
qed

section \<open>The drop-oldest policy\<close>

text \<open>
  The queue of depth 3 that holds A, B and C, with \<^verbatim>\<open>DropOldestOnOverload\<close> called:
  \<^verbatim>\<open>Put(D)\<close> leaves B, C, D and calls both handlers with A (\<open>Put_drop_oldest_result\<close>
  is the general fact).
\<close>

lemma queue_drop_oldest_ABC:
  "Put double_cap (DropOldestOnOverload queue_ABC) (Item ''D'') =
     Inr ([GoDispatch, Call OnOverload (Item ''A'') True,
           Call OnFirstOverload (Item ''A'') True],
          queue_ABC\<lparr>items := \<lparr>elems = [Item ''B'', Item ''C'', Item ''D''], spare = [NilV]\<rparr>,
                     overload := 1, dropOldestOnOverload := True\<rparr>)"
  by (simp add: queue_ABC_def q_defs sl_defs)

text \<open>
  C4. With drop-oldest, capacity 3 and buffer A, B, C, inserting D should leave B, C, D
  and hand the item A itself to both overload handlers, in the stack as in the queue.
  The stack's buffer is as claimed, but \<^verbatim>\<open>Push\<close> calls the handlers with
  \<^verbatim>\<open>firstItem := s.items[:1]\<close>, a slice of length one that holds A, where the queue
  passes \<^verbatim>\<open>q.items[:1][0]\<close>, the item.
\<close>

theorem stack_overload_handlers_get_slice:
  "Push double_cap stack_ABC (Item ''D'') =
     Inr ([GoDispatch, Call OnOverload (SliceV [Item ''A'']) True,
           Call OnFirstOverload (SliceV [Item ''A'']) True],
          stack_ABC\<lparr>s_items := \<lparr>elems = [Item ''B'', Item ''C'', Item ''D''], spare = [NilV]\<rparr>,
                     s_overload := 1\<rparr>)
   \<and> SliceV [Item ''A''] \<noteq> (Item ''A'' :: string val)"
  by (simp add: stack_ABC_def s_defs sl_defs)

section \<open>Eviction from an empty buffer\<close>

text \<open>
  A queue of depth 2 with drop-oldest: A is put and taken by the worker, \<^verbatim>\<open>Drain\<close> is
  called while the worker runs, and then B is put. The backing array has a spare cell,
  \<^verbatim>\<open>q.items[:1][0]\<close> reads it, and \<^verbatim>\<open>q.items[1:]\<close> panics: no handler is called with
  the value that was read.
\<close>

theorem empty_drop_oldest_never_reaches_handlers:
  "program double_cap 1 2 True True True True
     [OpDropOldest, OpStart, OpPut (Item ''A''), OpTake, OpDrainFlags, OpDrainCheck,
      OpPut (Item ''B'')] = Inl BoundsPanic"
  by (simp add: prog_defs q_defs sl_defs)

text \<open>
  C10, amended. When an insertion during draining takes the drop-oldest path (a queue
  with \<^verbatim>\<open>dropOldestOnOverload\<close> set, or any stack) and the buffer is empty, the
  insertion panics before the overload counter is incremented and before any handler is
  called: \<^verbatim>\<open>items[:1]\<close> is out of range when the backing array has no spare cell, and
  otherwise yields the stale cell, after which \<^verbatim>\<open>items[1:]\<close> is out of range, since
  its low bound 1 exceeds the length 0. No test on the buffer being non-empty guards
  the branch.
\<close>

theorem empty_drop_oldest_panics:
  assumes "\<not> mutex q" "draining q" "dropOldestOnOverload q" "elems (items q) = []"
    and "\<not> s_mutex s" "s_draining s" "elems (s_items s) = []"
  shows "Put g q x = Inl BoundsPanic \<and> Push g s y = Inl BoundsPanic
         \<and> slice_upto (items q) 1 =
             (if spare (items q) = [] then Inl BoundsPanic
              else Inr \<lparr>elems = [hd (spare (items q))], spare = tl (spare (items q))\<rparr>)
         \<and> slice_from (items q) 1 = Inl BoundsPanic
         \<and> slice_from (s_items s) 1 = Inl BoundsPanic"
proof -
  have "slice_upto (items q) 1 =
          (if spare (items q) = [] then Inl BoundsPanic
           else Inr \<lparr>elems = [hd (spare (items q))], spare = tl (spare (items q))\<rparr>)"
    using assms(4) by (cases "spare (items q)") (simp_all add: slice_upto_def cap_def)
  then show ?thesis
    using assms by (simp add: Put_drop_oldest_empty Push_overload_empty slice_from_1_Nil)
qed

theorem empty_drop_oldest_panics_witness:
  "\<not> mutex queue_busy_draining \<and> draining queue_busy_draining
   \<and> dropOldestOnOverload queue_busy_draining \<and> elems (items queue_busy_draining) = []
   \<and> \<not> s_mutex stack_busy_draining \<and> s_draining stack_busy_draining
   \<and> elems (s_items stack_busy_draining) = []
   \<and> Put double_cap queue_busy_draining (Item ''B'') = Inl BoundsPanic
   \<and> Push double_cap stack_busy_draining (Item ''B'') = Inl BoundsPanic
   \<and> slice_upto (items queue_busy_draining) 1 = Inr \<lparr>elems = [NilV], spare = []\<rparr>"
proof -
  have h: "\<not> mutex queue_busy_draining" "draining queue_busy_draining"
    "dropOldestOnOverload queue_busy_draining" "elems (items queue_busy_draining) = []"
    by (simp_all add: queue_busy_draining_def)
  have k: "\<not> s_mutex stack_busy_draining" "s_draining stack_busy_draining"
    "elems (s_items stack_busy_draining) = []"
    by (simp_all add: stack_busy_draining_def)
  have sp: "spare (items queue_busy_draining) = [NilV]"
    by (simp add: queue_busy_draining_def)
  from empty_drop_oldest_panics [OF h k, of double_cap "Item ''B''" "Item ''B''"]
  show ?thesis using h k by (simp add: sp)
qed

section \<open>Dispatch attempts of insertions and of Drain\<close>

text \<open>
  \<^verbatim>\<open>PushQueue.Drain\<close> has no \<^verbatim>\<open>go q.get()\<close>; \<^verbatim>\<open>PushBatchQueue.Drain\<close> ends
  with one.
\<close>

lemma queue_Drain_no_dispatch:
  "Drain queue_ABC = ([], queue_ABC\<lparr>started := False, draining := True\<rparr>)"
  by (simp add: queue_ABC_def Drain_def q_defs sl_defs)

text \<open>
  The full queue that holds A, B and C, without drop-oldest: \<^verbatim>\<open>Put(D)\<close> calls the two
  handlers with D and returns; it has no \<^verbatim>\<open>go q.get()\<close>.
\<close>

theorem drop_incoming_triggers_no_dispatch:
  "Put double_cap queue_ABC (Item ''D'') =
     Inr ([Call OnOverload (Item ''D'') True, Call OnFirstOverload (Item ''D'') True],
          queue_ABC\<lparr>overload := 1\<rparr>)
   \<and> dispatch_calls
         [Call OnOverload (Item ''D'') True, Call OnFirstOverload (Item ''D'') True] = 0"
  by (simp add: queue_ABC_def q_defs sl_defs)

text \<open>
  C3, amended. An insertion that returns triggers one dispatch attempt when it accepts
  the item and when it evicts the oldest item; \<^verbatim>\<open>Put\<close> of the queue and of the batch
  queue triggers none in the branch that drops the incoming item, where the buffer is
  left as it was. Every \<^verbatim>\<open>Push\<close> of the stack that returns triggers one. \<^verbatim>\<open>Drain\<close>
  of the batch queue triggers one.
\<close>

theorem insertion_dispatch_attempts:
  assumes "\<not> mutex q"
    and "\<not> (dropOldestOnOverload q \<and> (Count q \<ge> Depth q \<or> draining q) \<and> elems (items q) = [])"
    and "\<not> s_mutex s"
    and "\<not> ((Count_stack s \<ge> Height s \<or> s_draining s) \<and> elems (s_items s) = [])"
  shows "(\<exists>evs q'. Put g q x = Inr (evs, q')
            \<and> dispatch_calls evs =
                (if (Count q \<ge> Depth q \<or> draining q) \<and> \<not> dropOldestOnOverload q
                 then 0 else 1))
         \<and> (\<exists>evs s'. Push g s y = Inr (evs, s') \<and> dispatch_calls evs = 1)
         \<and> dispatch_calls (fst (Drain_batch b)) = 1"
proof -
  have put: "\<exists>evs q'. Put g q x = Inr (evs, q')
            \<and> dispatch_calls evs =
                (if (Count q \<ge> Depth q \<or> draining q) \<and> \<not> dropOldestOnOverload q
                 then 0 else 1)"
  proof (cases "Count q \<ge> Depth q \<or> draining q")
    case False
    then show ?thesis using assms(1) by (simp add: Put_accept_result)
  next
    case over: True
    show ?thesis
    proof (cases "dropOldestOnOverload q")
      case False
      then show ?thesis using assms(1) over by (simp add: Put_drop_incoming_result)
    next
      case True
      with assms(2) over obtain a as where "elems (items q) = a # as"
        by (cases "elems (items q)") auto
      then show ?thesis using assms(1) over True by (simp add: Put_drop_oldest_result)
    qed
  qed
  have push: "\<exists>evs s'. Push g s y = Inr (evs, s') \<and> dispatch_calls evs = 1"
  proof (cases "Count_stack s \<ge> Height s \<or> s_draining s")
    case False
    then show ?thesis using assms(3) by (simp add: Push_accept_result)
  next
    case True
    with assms(4) obtain a as where "elems (s_items s) = a # as"
      by (cases "elems (s_items s)") auto
    then show ?thesis using assms(3) True by (simp add: Push_overload_result)
  qed
  have "dispatch_calls (fst (Drain_batch b)) = 1"
    by (simp add: Drain_batch_def Drain_check_batch_def Drain_check_def setDrained_def
        dispatch_calls_append split: prod.splits)
  with put push show ?thesis by blast
qed


theorem insertion_dispatch_attempts_witness:
  "\<not> mutex queue_ABC
   \<and> \<not> (dropOldestOnOverload queue_ABC
        \<and> (Count queue_ABC \<ge> Depth queue_ABC \<or> draining queue_ABC)
        \<and> elems (items queue_ABC) = [])
   \<and> \<not> s_mutex stack_ABC
   \<and> \<not> ((Count_stack stack_ABC \<ge> Height stack_ABC \<or> s_draining stack_ABC)
        \<and> elems (s_items stack_ABC) = [])
   \<and> (\<exists>evs q'. Put double_cap queue_ABC (Item ''D'') = Inr (evs, q')
         \<and> dispatch_calls evs = 0)
   \<and> (\<exists>evs s'. Push double_cap stack_ABC (Item ''D'') = Inr (evs, s')
         \<and> dispatch_calls evs = 1)
   \<and> dispatch_calls (fst (Drain_batch batch_ABC)) = 1"
proof -
  have h1: "\<not> mutex queue_ABC" by (simp add: queue_ABC_def)
  have h2: "\<not> (dropOldestOnOverload queue_ABC
        \<and> (Count queue_ABC \<ge> Depth queue_ABC \<or> draining queue_ABC)
        \<and> elems (items queue_ABC) = [])" by (simp add: queue_ABC_def)
  have h3: "\<not> s_mutex stack_ABC" by (simp add: stack_ABC_def)
  have h4: "\<not> ((Count_stack stack_ABC \<ge> Height stack_ABC \<or> s_draining stack_ABC)
        \<and> elems (s_items stack_ABC) = [])" by (simp add: stack_ABC_def)
  have c: "Count queue_ABC \<ge> Depth queue_ABC" "\<not> dropOldestOnOverload queue_ABC"
    by (simp_all add: queue_ABC_def Count_def Depth_def len_def)
  from insertion_dispatch_attempts [OF h1 h2 h3 h4,
      of double_cap "Item ''D''" "Item ''D''" batch_ABC]
  show ?thesis using h1 h2 h3 h4 c by simp
qed

section \<open>How the handlers are called\<close>

text \<open>
  A queue of depth 3: A is put, \<^verbatim>\<open>Drain\<close> is called, B is put. \<^verbatim>\<open>Put(B)\<close> calls
  \<^verbatim>\<open>onOverload\<close> and \<^verbatim>\<open>onFirstOverload\<close> itself, between its \<^verbatim>\<open>Lock\<close> and its
  deferred \<^verbatim>\<open>Unlock\<close>.
\<close>

theorem overload_handler_called_under_lock:
  "program double_cap 1 3 True True True True
     [OpPut (Item ''A''), OpDrainFlags, OpDrainCheck, OpPut (Item ''B'')] =
   Inr ([GoDispatch, Call OnOverload (Item ''B'') True,
         Call OnFirstOverload (Item ''B'') True],
        \<lparr>worker = True, concurrency = 1, availableWorkers = 1, depth = 3,
         items = \<lparr>elems = [Item ''A''], spare = [NilV, NilV]\<rparr>,
         started = False, draining = True, overload = 1,
         dropOldestOnOverload = False, onOverload = True,
         onFirstOverload = True, onDrained = True, mutex = False\<rparr>)"
  by (simp add: prog_defs q_defs sl_defs)

text \<open>
  C9, amended. \<^verbatim>\<open>onDrained\<close> is started in a goroutine of its own
  (\<^verbatim>\<open>go q.onDrained()\<close>). \<^verbatim>\<open>onOverload\<close> and \<^verbatim>\<open>onFirstOverload\<close> are called by
  \<^verbatim>\<open>Put\<close> and \<^verbatim>\<open>Push\<close> themselves while the mutex is held, so a handler that calls
  \<^verbatim>\<open>Put\<close> or \<^verbatim>\<open>Push\<close> on the machine blocks on \<^verbatim>\<open>Lock\<close>, and the call that holds
  the mutex is waiting for the handler.
\<close>

theorem handlers_sync_under_lock:
  assumes "\<not> mutex q" "Count q \<ge> Depth q \<or> draining q" "onOverload q"
    and "\<not> (dropOldestOnOverload q \<and> elems (items q) = [])"
    and "\<not> s_mutex s" "Count_stack s \<ge> Height s \<or> s_draining s" "s_onOverload s"
    and "elems (s_items s) \<noteq> []"
  shows "(\<exists>evs q' v. Put g q x = Inr (evs, q')
            \<and> evs = (if dropOldestOnOverload q then [GoDispatch] else [])
                   @ [Call OnOverload v True]
                   @ (if overload q + 1 = 1 \<and> onFirstOverload q
                      then [Call OnFirstOverload v True] else [])
            \<and> unlocked_calls evs = 0)
         \<and> (\<exists>evs s' v. Push g s y = Inr (evs, s')
            \<and> evs = [GoDispatch, Call OnOverload v True]
                   @ (if s_overload s + 1 = 1 \<and> s_onFirstOverload s
                      then [Call OnFirstOverload v True] else [])
            \<and> unlocked_calls evs = 0)
         \<and> Put g (q\<lparr>mutex := True\<rparr>) z = Inl Blocked
         \<and> Push g (s\<lparr>s_mutex := True\<rparr>) z = Inl Blocked
         \<and> fst (setDrained q) = (if onDrained q then [GoOnDrained] else [])
         \<and> fst (setDrained_stack s) = (if s_onDrained s then [GoOnDrained] else [])"
proof -
  have put: "\<exists>evs q' v. Put g q x = Inr (evs, q')
            \<and> evs = (if dropOldestOnOverload q then [GoDispatch] else [])
                   @ [Call OnOverload v True]
                   @ (if overload q + 1 = 1 \<and> onFirstOverload q
                      then [Call OnFirstOverload v True] else [])
            \<and> unlocked_calls evs = 0"
  proof (cases "dropOldestOnOverload q")
    case False
    then show ?thesis using assms(1-3) by (simp add: Put_drop_incoming_result)
  next
    case True
    with assms(4) obtain a as where "elems (items q) = a # as"
      by (cases "elems (items q)") auto
    then show ?thesis using assms(1-3) True by (simp add: Put_drop_oldest_result)
  qed
  from assms(8) obtain a as where "elems (s_items s) = a # as"
    by (cases "elems (s_items s)") auto
  then have push: "\<exists>evs s' v. Push g s y = Inr (evs, s')
            \<and> evs = [GoDispatch, Call OnOverload v True]
                   @ (if s_overload s + 1 = 1 \<and> s_onFirstOverload s
                      then [Call OnFirstOverload v True] else [])
            \<and> unlocked_calls evs = 0"
    using assms(5-7) by (simp add: Push_overload_result)
  have rest: "Put g (q\<lparr>mutex := True\<rparr>) z = Inl Blocked"
    "Push g (s\<lparr>s_mutex := True\<rparr>) z = Inl Blocked"
    "fst (setDrained q) = (if onDrained q then [GoOnDrained] else [])"
    "fst (setDrained_stack s) = (if s_onDrained s then [GoOnDrained] else [])"
    by (simp_all add: Put_blocked Push_blocked setDrained_def setDrained_stack_def)
  from put push rest show ?thesis by blast
qed

theorem handlers_sync_under_lock_witness:
  "\<not> mutex queue_ABC \<and> (Count queue_ABC \<ge> Depth queue_ABC \<or> draining queue_ABC)
   \<and> onOverload queue_ABC
   \<and> \<not> (dropOldestOnOverload queue_ABC \<and> elems (items queue_ABC) = [])
   \<and> \<not> s_mutex stack_ABC
   \<and> (Count_stack stack_ABC \<ge> Height stack_ABC \<or> s_draining stack_ABC)
   \<and> s_onOverload stack_ABC \<and> elems (s_items stack_ABC) \<noteq> []
   \<and> (\<exists>evs q' v. Put double_cap queue_ABC (Item ''D'') = Inr (evs, q')
         \<and> evs = [Call OnOverload v True, Call OnFirstOverload v True]
         \<and> unlocked_calls evs = 0)
   \<and> (\<exists>evs s' v. Push double_cap stack_ABC (Item ''D'') = Inr (evs, s')
         \<and> evs = [GoDispatch, Call OnOverload v True, Call OnFirstOverload v True]
         \<and> unlocked_calls evs = 0)
   \<and> Put double_cap (queue_ABC\<lparr>mutex := True\<rparr>) (Item ''E'') = Inl Blocked
   \<and> Push double_cap (stack_ABC\<lparr>s_mutex := True\<rparr>) (Item ''E'') = Inl Blocked
   \<and> fst (setDrained queue_ABC) = [GoOnDrained]
   \<and> fst (setDrained_stack stack_ABC) = [GoOnDrained]"
proof -
  have h: "\<not> mutex queue_ABC" "Count queue_ABC \<ge> Depth queue_ABC \<or> draining queue_ABC"
    "onOverload queue_ABC"
    "\<not> (dropOldestOnOverload queue_ABC \<and> elems (items queue_ABC) = [])"
    by (simp_all add: queue_ABC_def Count_def Depth_def len_def)
  have k: "\<not> s_mutex stack_ABC"
    "Count_stack stack_ABC \<ge> Height stack_ABC \<or> s_draining stack_ABC"
    "s_onOverload stack_ABC" "elems (s_items stack_ABC) \<noteq> []"
    by (simp_all add: stack_ABC_def Count_stack_def Height_def len_def)
  have c: "\<not> dropOldestOnOverload queue_ABC" "overload queue_ABC = 0"
    "onFirstOverload queue_ABC" "onDrained queue_ABC" "s_overload stack_ABC = 0"
    "s_onFirstOverload stack_ABC" "s_onDrained stack_ABC"
    by (simp_all add: queue_ABC_def stack_ABC_def)
  from handlers_sync_under_lock [OF h k, of double_cap "Item ''D''" "Item ''D''" "Item ''E''"]
  show ?thesis using h k by (simp add: c)
qed

section \<open>Every step keeps the bounds\<close>

lemma Put_bounds:
  assumes "bounds q" "Put g q x = Inr (evs, q')"
  shows "bounds q'"
proof (cases "mutex q")
  case True
  with assms(2) show ?thesis by (simp add: Put_blocked)
next
  case m: False
  show ?thesis
  proof (cases "Count q \<ge> Depth q \<or> draining q")
    case False
    with m assms show ?thesis
      by (auto simp: Put_accept_result bounds_def len_append1 Count_def Depth_def)
  next
    case over: True
    show ?thesis
    proof (cases "dropOldestOnOverload q")
      case False
      with m over assms show ?thesis
        by (auto simp: Put_drop_incoming_result bounds_def)
    next
      case True
      show ?thesis
      proof (cases "elems (items q)")
        case Nil
        with m over True assms(2) show ?thesis by (simp add: Put_drop_oldest_empty)
      next
        case (Cons a as)
        with m over True assms show ?thesis
          by (auto simp: Put_drop_oldest_result bounds_def elems_append1 len_def)
      qed
    qed
  qed
qed

lemma get_take_bounds:
  assumes "bounds q" "get_take q = Inr (r, q')"
  shows "bounds q'"
proof (cases "readyToWork q \<and> \<not> mutex q")
  case False
  with assms show ?thesis
    by (auto simp: get_take_def split: if_splits)
next
  case True
  then obtain a as where e: "elems (items q) = a # as"
    by (cases "elems (items q)") (auto simp: readyToWork_def len_def)
  with True assms show ?thesis
    by (auto simp: get_take_def readyToWork_def Let_def head_Cons index_at_0 slice_from_1_Cons
        bounds_def len_def)
qed

lemma get_take_batch_bounds:
  assumes "bounds q" "get_take_batch q = Inr (r, q')"
  shows "bounds q'"
  using assms
  by (auto simp: get_take_batch_def readyToWork_def Let_def bounds_def slice_upto_def
      slice_from_def len_def split: if_splits sum.splits)

lemma workerCompleted_bounds:
  assumes "bounds q" "workerCompleted q = Inr (evs, q')"
  shows "bounds q'"
  using assms
  by (auto simp: workerCompleted_def setDrained_def Let_def bounds_def split: if_splits)

lemma Start_bounds: "bounds q \<Longrightarrow> Start q = Inr (evs, q') \<Longrightarrow> bounds q'"
  by (auto simp: Start_def bounds_def split: if_splits)

lemma Start_batch_bounds: "bounds q \<Longrightarrow> Start_batch q = Inr (evs, q') \<Longrightarrow> bounds q'"
  by (auto simp: Start_batch_def bounds_def split: if_splits)

lemma Stop_bounds: "bounds q \<Longrightarrow> bounds (Stop q)"
  by (simp add: Stop_def bounds_def)

lemma Drain_flags_bounds: "bounds q \<Longrightarrow> bounds (Drain_flags q)"
  by (simp add: Drain_flags_def bounds_def)

lemma Drain_check_bounds: "bounds q \<Longrightarrow> bounds (snd (Drain_check q))"
  by (simp add: Drain_check_def setDrained_def bounds_def)

lemma Drain_check_batch_bounds: "bounds q \<Longrightarrow> bounds (snd (Drain_check_batch q))"
  by (simp add: Drain_check_batch_def Drain_check_def setDrained_def bounds_def
      split: prod.splits)

lemma Empty_bounds:
  "bounds q \<Longrightarrow> Empty q = Inr q' \<Longrightarrow> bounds q'"
  by (auto simp: Empty_def bounds_def len_make_slice split: if_splits)

lemma DropOldest_bounds: "bounds q \<Longrightarrow> bounds (DropOldestOnOverload q)"
  by (simp add: DropOldestOnOverload_def bounds_def)

lemma step_bounds:
  assumes "bounds q" "step g q x = Inr (evs, q')"
  shows "bounds q'"
proof (cases x)
  case (OpPut v)
  with assms show ?thesis by (simp add: Put_bounds)
next
  case OpTake
  with assms show ?thesis
    by (auto split: sum.splits option.splits dest: get_take_bounds)
next
  case OpCompleted
  with assms show ?thesis
    by (auto split: sum.splits dest: workerCompleted_bounds)
next
  case OpStart
  with assms show ?thesis by (auto dest: Start_bounds)
next
  case OpStop
  with assms show ?thesis by (auto simp: Stop_bounds)
next
  case OpDrainFlags
  with assms show ?thesis by (auto simp: Drain_flags_bounds)
next
  case OpDrainCheck
  with assms Drain_check_bounds [of q] show ?thesis by (cases "Drain_check q") auto
next
  case OpEmpty
  with assms show ?thesis by (auto split: sum.splits dest: Empty_bounds)
next
  case OpDropOldest
  with assms show ?thesis by (auto simp: DropOldest_bounds)
qed

lemma step_batch_bounds:
  assumes "bounds q" "step_batch g q x = Inr (evs, q')"
  shows "bounds q'"
proof (cases x)
  case (OpPut v)
  with assms show ?thesis by (simp add: Put_bounds)
next
  case OpTake
  with assms show ?thesis
    by (auto split: sum.splits option.splits dest: get_take_batch_bounds)
next
  case OpCompleted
  with assms show ?thesis
    by (auto split: sum.splits dest: workerCompleted_bounds)
next
  case OpStart
  with assms show ?thesis by (auto dest: Start_batch_bounds)
next
  case OpStop
  with assms show ?thesis by (auto simp: Stop_bounds)
next
  case OpDrainFlags
  with assms show ?thesis by (auto simp: Drain_flags_bounds)
next
  case OpDrainCheck
  with assms Drain_check_batch_bounds [of q] show ?thesis
    by (cases "Drain_check_batch q") auto
next
  case OpEmpty
  with assms show ?thesis by (auto split: sum.splits dest: Empty_bounds)
next
  case OpDropOldest
  with assms show ?thesis by (auto simp: DropOldest_bounds)
qed

lemma run_bounds:
  "bounds q \<Longrightarrow> run g q ops = Inr (evs, q') \<Longrightarrow> bounds q'"
proof (induction ops arbitrary: q evs)
  case Nil
  then show ?case by simp
next
  case (Cons x xs)
  from Cons.prems(2) obtain e1 q1 e2
    where "step g q x = Inr (e1, q1)" "run g q1 xs = Inr (e2, q')"
    by (auto split: sum.splits)
  with Cons.IH Cons.prems(1) step_bounds show ?case by blast
qed

lemma run_batch_bounds:
  "bounds q \<Longrightarrow> run_batch g q ops = Inr (evs, q') \<Longrightarrow> bounds q'"
proof (induction ops arbitrary: q evs)
  case Nil
  then show ?case by simp
next
  case (Cons x xs)
  from Cons.prems(2) obtain e1 q1 e2
    where "step_batch g q x = Inr (e1, q1)" "run_batch g q1 xs = Inr (e2, q')"
    by (auto split: sum.splits)
  with Cons.IH Cons.prems(1) step_batch_bounds show ?case by blast
qed


lemma Push_bounds:
  assumes "bounds_stack s" "Push g s x = Inr (evs, s')"
  shows "bounds_stack s'"
proof (cases "s_mutex s")
  case True
  with assms(2) show ?thesis by (simp add: Push_blocked)
next
  case m: False
  show ?thesis
  proof (cases "Count_stack s \<ge> Height s \<or> s_draining s")
    case False
    with m assms show ?thesis
      by (auto simp: Push_accept_result bounds_stack_def len_append1 Count_stack_def Height_def)
  next
    case over: True
    show ?thesis
    proof (cases "elems (s_items s)")
      case Nil
      with m over assms(2) show ?thesis by (simp add: Push_overload_empty)
    next
      case (Cons a as)
      with m over assms show ?thesis
        by (auto simp: Push_overload_result bounds_stack_def elems_append1 len_def)
    qed
  qed
qed

lemma pop_take_bounds:
  assumes "bounds_stack s" "pop_take s = Inr (r, s')"
  shows "bounds_stack s'"
  using assms
  by (auto simp: pop_take_def readyToWork_stack_def Let_def bounds_stack_def slice_upto_def
      slice_from_def index_at_def len_def split: if_splits sum.splits)

lemma workerCompleted_stack_bounds:
  assumes "bounds_stack s" "workerCompleted_stack s = Inr (evs, s')"
  shows "bounds_stack s'"
  using assms
  by (auto simp: workerCompleted_stack_def setDrained_stack_def Let_def bounds_stack_def
      split: if_splits)

lemma step_stack_bounds:
  assumes "bounds_stack s" "step_stack g s x = Inr (evs, s')"
  shows "bounds_stack s'"
proof (cases x)
  case (SPush v)
  with assms show ?thesis by (simp add: Push_bounds)
next
  case STake
  with assms show ?thesis
    by (auto split: sum.splits option.splits dest: pop_take_bounds)
next
  case (SCompleted v)
  with assms show ?thesis
    by (auto split: sum.splits dest: workerCompleted_stack_bounds)
next
  case SStart
  with assms show ?thesis
    by (auto simp: Start_stack_def bounds_stack_def split: if_splits)
next
  case SStop
  with assms show ?thesis by (auto simp: Stop_stack_def bounds_stack_def)
next
  case SDrainFlags
  with assms show ?thesis by (auto simp: Drain_flags_stack_def bounds_stack_def)
next
  case SDrainCheck
  with assms show ?thesis
    by (auto simp: Drain_check_stack_def setDrained_stack_def bounds_stack_def
        split: if_splits)
next
  case SEmpty
  with assms show ?thesis
    by (auto simp: Empty_stack_def bounds_stack_def len_make_slice split: if_splits)
qed

lemma run_stack_bounds:
  "bounds_stack s \<Longrightarrow> run_stack g s ops = Inr (evs, s') \<Longrightarrow> bounds_stack s'"
proof (induction ops arbitrary: s evs)
  case Nil
  then show ?case by simp
next
  case (Cons x xs)
  from Cons.prems(2) obtain e1 s1 e2
    where "step_stack g s x = Inr (e1, s1)" "run_stack g s1 xs = Inr (e2, s')"
    by (auto split: sum.splits)
  with Cons.IH Cons.prems(1) step_stack_bounds show ?case by blast
qed

text \<open>
  C6. Every state that a program reaches satisfies
  \<open>0 \<le> availableWorkers \<le> concurrency\<close> and \<open>0 \<le> len items \<le> depth\<close> (height, for
  the stack): the constructor establishes both bounds, and every step (insertion,
  dispatch step, worker completion, \<^verbatim>\<open>Start\<close>, \<^verbatim>\<open>Stop\<close>, the two halves of \<^verbatim>\<open>Drain\<close>,
  \<^verbatim>\<open>Empty\<close>, \<^verbatim>\<open>DropOldestOnOverload\<close>) keeps them, in the queue, the stack and the
  batch queue. The steps may come in any order, so the state after every prefix of a
  run is covered.
\<close>

theorem reachable_states_within_bounds:
  assumes "program g c d w h1 h2 h3 ops = Inr (evs, q)"
    and "program_stack g c' h' w' k1 k2 k3 sops = Inr (sevs, s)"
    and "program_batch g c'' d'' b w'' l1 l2 l3 bops = Inr (bevs, bq)"
  shows "(0 \<le> availableWorkers q \<and> availableWorkers q \<le> concurrency q
          \<and> 0 \<le> len (items q) \<and> len (items q) \<le> depth q)
       \<and> (0 \<le> s_availableWorkers s \<and> s_availableWorkers s \<le> s_concurrency s
          \<and> 0 \<le> len (s_items s) \<and> len (s_items s) \<le> s_height s)
       \<and> (0 \<le> availableWorkers bq \<and> availableWorkers bq \<le> concurrency bq
          \<and> 0 \<le> len (items bq) \<and> len (items bq) \<le> depth bq)"
proof -
  from assms(1) obtain q0 where
    "NewPushQueue c d w = Inr (q0 :: 'a PushQueue)"
    "run g (q0\<lparr>onOverload := h1, onFirstOverload := h2, onDrained := h3\<rparr>) ops = Inr (evs, q)"
    by (auto simp: program_def split: sum.splits)
  moreover from this(1)
  have "bounds (q0\<lparr>onOverload := h1, onFirstOverload := h2, onDrained := h3\<rparr>)"
    by (auto simp: NewPushQueue_def bounds_def len_make_slice split: if_splits)
  ultimately have 1: "bounds q" by (blast intro: run_bounds)
  from assms(2) obtain s0 where
    "NewPushStack c' h' w' = Inr (s0 :: 'b PushStack)"
    "run_stack g (s0\<lparr>s_onOverload := k1, s_onFirstOverload := k2, s_onDrained := k3\<rparr>) sops
       = Inr (sevs, s)"
    by (auto simp: program_stack_def split: sum.splits)
  moreover from this(1)
  have "bounds_stack (s0\<lparr>s_onOverload := k1, s_onFirstOverload := k2, s_onDrained := k3\<rparr>)"
    by (auto simp: NewPushStack_def bounds_stack_def len_make_slice split: if_splits)
  ultimately have 2: "bounds_stack s" by (blast intro: run_stack_bounds)
  from assms(3) obtain b0 where
    "NewPushBatchQueue c'' d'' b w'' = Inr (b0 :: 'c PushBatchQueue)"
    "run_batch g (b0\<lparr>onOverload := l1, onFirstOverload := l2, onDrained := l3\<rparr>) bops
       = Inr (bevs, bq)"
    by (auto simp: program_batch_def split: sum.splits)
  moreover from this(1)
  have "bounds (b0\<lparr>onOverload := l1, onFirstOverload := l2, onDrained := l3\<rparr>)"
    by (auto simp: NewPushBatchQueue_def bounds_def len_make_slice split: if_splits)
  ultimately have 3: "bounds bq" by (blast intro: run_batch_bounds)
  from 1 2 3 show ?thesis by (simp add: bounds_def bounds_stack_def)
qed


theorem reachable_states_within_bounds_witness:
  "program double_cap 1 3 True True True True
     [OpStart, OpPut (Item ''A''), OpPut (Item ''B''), OpPut (Item ''C'')] =
     Inr ([GoDispatch, GoDispatch, GoDispatch], queue_ABC)
   \<and> program_stack double_cap 1 3 True True True True
     [SStart, SPush (Item ''A''), SPush (Item ''B''), SPush (Item ''C'')] =
     Inr ([GoDispatch, GoDispatch, GoDispatch], stack_ABC)
   \<and> program_batch double_cap 2 5 2 True True True True
     [OpStart, OpPut (Item ''A''), OpPut (Item ''B''), OpPut (Item ''C'')] =
     Inr ([GoDispatch, GoDispatch, GoDispatch, GoDispatch], batch_ABC)
   \<and> (0 \<le> availableWorkers queue_ABC \<and> availableWorkers queue_ABC \<le> concurrency queue_ABC
      \<and> 0 \<le> len (items queue_ABC) \<and> len (items queue_ABC) \<le> depth queue_ABC)
   \<and> (0 \<le> s_availableWorkers stack_ABC
      \<and> s_availableWorkers stack_ABC \<le> s_concurrency stack_ABC
      \<and> 0 \<le> len (s_items stack_ABC) \<and> len (s_items stack_ABC) \<le> s_height stack_ABC)
   \<and> (0 \<le> availableWorkers batch_ABC \<and> availableWorkers batch_ABC \<le> concurrency batch_ABC
      \<and> 0 \<le> len (items batch_ABC) \<and> len (items batch_ABC) \<le> depth batch_ABC)"
  using reachable_states_within_bounds
    [OF queue_ABC_reached stack_ABC_reached batch_ABC_reached]
    queue_ABC_reached stack_ABC_reached batch_ABC_reached
  by simp

section \<open>The drained notification\<close>

text \<open>
  \<^verbatim>\<open>Drain\<close> on a machine with an empty buffer and every slot idle: if nothing else runs
  in between, it starts \<^verbatim>\<open>onDrained\<close> once, calls no worker, and leaves the machine
  stopped.
\<close>

lemma Drain_empty_idle:
  assumes "Count q = 0" "availableWorkers q = concurrency q"
  shows "Drain q =
           ((if onDrained q then [GoOnDrained] else []),
            q\<lparr>started := False, draining := False\<rparr>)"
  using assms by (simp add: Drain_def Drain_flags_def Drain_check_def setDrained_def Count_def)

text \<open>
  Steps other than those of \<^verbatim>\<open>Drain\<close> start \<^verbatim>\<open>onDrained\<close> only when the draining flag
  is set, and the step that starts it clears the flag: after a \<^verbatim>\<open>Drain\<close> that nothing
  interrupts, the worker completions start it at most once.
\<close>

lemma Put_drained:
  assumes "Put g q x = Inr (evs, q')"
  shows "drained_calls evs = 0 \<and> draining q' = draining q"
proof (cases "mutex q")
  case True
  with assms show ?thesis by (simp add: Put_blocked)
next
  case m: False
  show ?thesis
  proof (cases "Count q \<ge> Depth q \<or> draining q")
    case False
    with m assms show ?thesis by (auto simp: Put_accept_result)
  next
    case over: True
    show ?thesis
    proof (cases "dropOldestOnOverload q")
      case False
      with m over assms show ?thesis by (auto simp: Put_drop_incoming_result)
    next
      case True
      show ?thesis
      proof (cases "elems (items q)")
        case Nil
        with m over True assms show ?thesis by (simp add: Put_drop_oldest_empty)
      next
        case (Cons a as)
        with m over True assms show ?thesis by (auto simp: Put_drop_oldest_result)
      qed
    qed
  qed
qed

lemma get_take_draining: "get_take q = Inr (r, q') \<Longrightarrow> draining q' = draining q"
  by (auto simp: get_take_def Let_def split: if_splits sum.splits)

lemma workerCompleted_drained:
  assumes "workerCompleted q = Inr (evs, q')"
  shows "drained_calls (evs @ get_tail q') + (if draining q' then 1 else 0)
           \<le> (if draining q then 1 else 0)"
  using assms
  by (auto simp: workerCompleted_def setDrained_def get_tail_def Let_def drained_calls_append
      split: if_splits)

lemma step_drained:
  assumes "step g q x = Inr (evs, q')" "x \<noteq> OpDrainFlags" "x \<noteq> OpDrainCheck"
  shows "drained_calls evs + (if draining q' then 1 else 0) \<le> (if draining q then 1 else 0)"
proof (cases x)
  case (OpPut v)
  with assms Put_drained [of g q v evs q'] show ?thesis by simp
next
  case OpTake
  with assms show ?thesis
    by (auto split: sum.splits option.splits dest: get_take_draining)
next
  case OpCompleted
  with assms obtain e1 where "workerCompleted q = Inr (e1, q')" "evs = e1 @ get_tail q'"
    by (auto split: sum.splits)
  with workerCompleted_drained [of q e1 q'] show ?thesis by simp
next
  case OpStart
  with assms show ?thesis by (auto simp: Start_def split: if_splits)
next
  case OpStop
  with assms show ?thesis by (auto simp: Stop_def)
next
  case OpEmpty
  with assms show ?thesis by (auto simp: Empty_def split: if_splits)
next
  case OpDropOldest
  with assms show ?thesis by (auto simp: DropOldestOnOverload_def)
qed (use assms in simp_all)

lemma run_drained:
  assumes "run g q ops = Inr (evs, q')" "OpDrainFlags \<notin> set ops" "OpDrainCheck \<notin> set ops"
  shows "drained_calls evs + (if draining q' then 1 else 0) \<le> (if draining q then 1 else 0)"
  using assms
proof (induction ops arbitrary: q evs)
  case Nil
  then show ?case by simp
next
  case (Cons x xs)
  from Cons.prems(1) obtain e1 q1 e2
    where s: "step g q x = Inr (e1, q1)" and r: "run g q1 xs = Inr (e2, q')"
      and e: "evs = e1 @ e2"
    by (auto split: sum.splits)
  from s Cons.prems have
    "drained_calls e1 + (if draining q1 then 1 else 0) \<le> (if draining q then 1 else 0)"
    by (intro step_drained) auto
  moreover from r Cons.prems Cons.IH have
    "drained_calls e2 + (if draining q' then 1 else 0) \<le> (if draining q1 then 1 else 0)"
    by auto
  ultimately show ?case
    by (auto simp: e drained_calls_append split: if_splits)
qed

lemma completions_fire_at_most_once:
  assumes "run g (snd (Drain q)) ops = Inr (evs, q')"
    "OpDrainFlags \<notin> set ops" "OpDrainCheck \<notin> set ops"
  shows "drained_calls (fst (Drain q) @ evs) \<le> 1"
proof -
  have "drained_calls (fst (Drain q)) + (if draining (snd (Drain q)) then 1 else 0) \<le> 1"
    by (simp add: Drain_def Drain_flags_def Drain_check_def setDrained_def)
  moreover from run_drained [OF _ assms(2,3)] assms(1)
  have "drained_calls evs + (if draining q' then 1 else 0)
          \<le> (if draining (snd (Drain q)) then 1 else 0)"
    by simp
  ultimately show ?thesis by (auto simp: drained_calls_append split: if_splits)
qed

text \<open>
  C7. Within one \<^verbatim>\<open>Drain\<close> cycle \<^verbatim>\<open>onDrained\<close> should fire at most once. \<^verbatim>\<open>Drain\<close>
  takes no lock, and its test of the buffer and the slots does not look at the draining
  flag. A queue with one slot: A is put and taken by the worker; \<^verbatim>\<open>Drain\<close> sets the
  flags; the worker returns, and \<^verbatim>\<open>workerCompleted\<close> finds the machine draining,
  empty and idle and starts \<^verbatim>\<open>onDrained\<close>; \<^verbatim>\<open>Drain\<close> goes on to its test, finds the
  machine empty and idle, and starts \<^verbatim>\<open>onDrained\<close> again.
\<close>

theorem drained_fires_twice_in_one_drain:
  "program double_cap 1 1 True True True True
     [OpStart, OpPut (Item ''A''), OpTake, OpDrainFlags, OpCompleted, OpDrainCheck] =
   Inr ([GoDispatch, Work (Item ''A''), GoOnDrained, GoDispatch, GoOnDrained],
        \<lparr>worker = True, concurrency = 1, availableWorkers = 1, depth = 1,
         items = \<lparr>elems = [], spare = []\<rparr>, started = False,
         draining = False, overload = 0, dropOldestOnOverload = False,
         onOverload = True, onFirstOverload = True, onDrained = True,
         mutex = False\<rparr>)
   \<and> drained_calls
         [GoDispatch, Work (Item ''A''), GoOnDrained, GoDispatch, GoOnDrained :: string event]
       = 2"
  by (simp add: prog_defs q_defs sl_defs)

section \<open>Overload accounting\<close>

text \<open>
  Insertions with no dispatch step in between first fill the buffer to its capacity;
  every later one is an overload.
\<close>

lemma run_puts: "run g q (map OpPut xs) = puts g q xs"
  by (induction xs arbitrary: q) (auto split: sum.splits)

lemma run_batch_puts: "run_batch g q (map OpPut xs) = puts g q xs"
  by (induction xs arbitrary: q) (auto split: sum.splits)

lemma run_stack_pushes: "run_stack g s (map SPush xs) = pushes g s xs"
  by (induction xs arbitrary: s) (auto split: sum.splits)

lemma puts_append:
  "puts g q (xs @ ys) =
     (case puts g q xs of
        Inl e \<Rightarrow> Inl e
      | Inr (e1, q1) \<Rightarrow>
          (case puts g q1 ys of Inl e \<Rightarrow> Inl e | Inr (e2, q2) \<Rightarrow> Inr (e1 @ e2, q2)))"
  by (induction xs arbitrary: q) (auto split: sum.splits)

lemma pushes_append:
  "pushes g s (xs @ ys) =
     (case pushes g s xs of
        Inl e \<Rightarrow> Inl e
      | Inr (e1, s1) \<Rightarrow>
          (case pushes g s1 ys of Inl e \<Rightarrow> Inl e | Inr (e2, s2) \<Rightarrow> Inr (e1 @ e2, s2)))"
  by (induction xs arbitrary: s) (auto split: sum.splits)

lemma elems_foldl_append1: "elems (foldl (append1 g) s xs) = elems s @ xs"
  by (induction xs arbitrary: s) (simp_all add: elems_append1)

lemma word64_of_nat_eq_0: "n < 2 ^ 64 \<Longrightarrow> ((of_nat n :: 64 word) = 0) = (n = 0)"
  by (auto simp: word_of_nat_eq_0_iff dest: dvd_imp_le)

lemma sint_word64_of_nat: "k < 2 ^ 63 \<Longrightarrow> sint (of_nat k :: 64 word) = int k"
proof -
  assume "k < 2 ^ 63"
  then have "int k < 2 ^ 63" by (metis of_nat_less_numeral_power_cancel_iff)
  then show ?thesis
    by (simp add: signed_of_nat signed_take_bit_int_eq_self)
qed

lemma puts_fill:
  assumes "\<not> mutex q" "\<not> draining q" "len (items q) + int (length xs) \<le> depth q"
  shows "puts g q xs =
           Inr (replicate (length xs) GoDispatch, q\<lparr>items := foldl (append1 g) (items q) xs\<rparr>)"
  using assms
proof (induction xs arbitrary: q)
  case Nil
  then show ?case by simp
next
  case (Cons x xs)
  let ?q1 = "q\<lparr>items := append1 g (items q) x\<rparr>"
  from Cons.prems have p: "Put g q x = Inr ([GoDispatch], ?q1)"
    by (intro Put_accept_result) (auto simp: Count_def Depth_def len_def)
  from Cons.prems have "puts g ?q1 xs =
      Inr (replicate (length xs) GoDispatch, ?q1\<lparr>items := foldl (append1 g) (items ?q1) xs\<rparr>)"
    by (intro Cons.IH) (auto simp: len_append1)
  with p show ?case by simp
qed

lemma puts_full_incoming:
  assumes "\<not> mutex q" "Count q \<ge> Depth q" "\<not> dropOldestOnOverload q"
    "overload q = of_nat n" "n + length xs < 2 ^ 64"
  shows "\<exists>evs. puts g q xs = Inr (evs, q\<lparr>overload := of_nat (n + length xs)\<rparr>)
           \<and> handler_calls OnOverload evs = (if onOverload q then xs else [])
           \<and> handler_calls OnFirstOverload evs =
               (if onFirstOverload q \<and> n = 0 \<and> xs \<noteq> [] then [hd xs] else [])"
  using assms
proof (induction xs arbitrary: q n)
  case Nil
  then show ?case by simp
next
  case (Cons x xs)
  let ?q1 = "q\<lparr>overload := of_nat (Suc n)\<rparr>"
  have n0: "((of_nat n :: 64 word) = 0) = (n = 0)"
    using Cons.prems(5) by (intro word64_of_nat_eq_0) simp
  from Cons.prems have p: "Put g q x =
      Inr ((if onOverload q then [Call OnOverload x True] else [])
           @ (if n = 0 \<and> onFirstOverload q then [Call OnFirstOverload x True] else []), ?q1)"
    by (simp add: Put_drop_incoming_result n0)
  from Cons.prems have "\<exists>evs. puts g ?q1 xs = Inr (evs, ?q1\<lparr>overload := of_nat (Suc n + length xs)\<rparr>)
           \<and> handler_calls OnOverload evs = (if onOverload ?q1 then xs else [])
           \<and> handler_calls OnFirstOverload evs =
               (if onFirstOverload ?q1 \<and> Suc n = 0 \<and> xs \<noteq> [] then [hd xs] else [])"
    by (intro Cons.IH) (auto simp: Count_def Depth_def)
  then obtain e2 where
    "puts g ?q1 xs = Inr (e2, ?q1\<lparr>overload := of_nat (Suc n + length xs)\<rparr>)"
    "handler_calls OnOverload e2 = (if onOverload q then xs else [])"
    "handler_calls OnFirstOverload e2 = []"
    by auto
  with p show ?case by (simp add: handler_calls_append)
qed

lemma puts_full_oldest:
  assumes "\<not> mutex q" "Count q \<ge> Depth q" "dropOldestOnOverload q"
    "elems (items q) \<noteq> []" "overload q = of_nat n" "n + length xs < 2 ^ 64"
  shows "\<exists>evs q'. puts g q xs = Inr (evs, q')
           \<and> overload q' = of_nat (n + length xs)
           \<and> elems (items q') = drop (length xs) (elems (items q) @ xs)
           \<and> handler_calls OnOverload evs =
               (if onOverload q then take (length xs) (elems (items q) @ xs) else [])
           \<and> handler_calls OnFirstOverload evs =
               (if onFirstOverload q \<and> n = 0 \<and> xs \<noteq> [] then [hd (elems (items q))] else [])"
  using assms
proof (induction xs arbitrary: q n)
  case Nil
  then show ?case by simp
next
  case (Cons x xs)
  from Cons.prems(4) obtain a as where e: "elems (items q) = a # as"
    by (cases "elems (items q)") auto
  let ?q1 = "q\<lparr>items := append1 g \<lparr>elems = as, spare = spare (items q)\<rparr> x,
               overload := of_nat (Suc n)\<rparr>"
  have n0: "((of_nat n :: 64 word) = 0) = (n = 0)"
    using Cons.prems(6) by (intro word64_of_nat_eq_0) simp
  from Cons.prems e have p: "Put g q x =
      Inr ([GoDispatch] @ (if onOverload q then [Call OnOverload a True] else [])
           @ (if n = 0 \<and> onFirstOverload q then [Call OnFirstOverload a True] else []), ?q1)"
    by (simp add: Put_drop_oldest_result n0)
  from Cons.prems e have "\<exists>evs q'. puts g ?q1 xs = Inr (evs, q')
           \<and> overload q' = of_nat (Suc n + length xs)
           \<and> elems (items q') = drop (length xs) (elems (items ?q1) @ xs)
           \<and> handler_calls OnOverload evs =
               (if onOverload ?q1 then take (length xs) (elems (items ?q1) @ xs) else [])
           \<and> handler_calls OnFirstOverload evs =
               (if onFirstOverload ?q1 \<and> Suc n = 0 \<and> xs \<noteq> []
                then [hd (elems (items ?q1))] else [])"
    by (intro Cons.IH) (auto simp: Count_def Depth_def len_def elems_append1)
  then obtain e2 q' where
    "puts g ?q1 xs = Inr (e2, q')"
    "overload q' = of_nat (Suc n + length xs)"
    "elems (items q') = drop (length xs) (as @ x # xs)"
    "handler_calls OnOverload e2 = (if onOverload q then take (length xs) (as @ x # xs) else [])"
    "handler_calls OnFirstOverload e2 = []"
    by (auto simp: elems_append1)
  with p e show ?case by (simp add: handler_calls_append)
qed


lemma pushes_fill:
  assumes "\<not> s_mutex s" "\<not> s_draining s" "len (s_items s) + int (length xs) \<le> s_height s"
  shows "pushes g s xs =
           Inr (replicate (length xs) GoDispatch,
                s\<lparr>s_items := foldl (append1 g) (s_items s) xs\<rparr>)"
  using assms
proof (induction xs arbitrary: s)
  case Nil
  then show ?case by simp
next
  case (Cons x xs)
  let ?s1 = "s\<lparr>s_items := append1 g (s_items s) x\<rparr>"
  from Cons.prems have p: "Push g s x = Inr ([GoDispatch], ?s1)"
    by (intro Push_accept_result) (auto simp: Count_stack_def Height_def len_def)
  from Cons.prems have "pushes g ?s1 xs =
      Inr (replicate (length xs) GoDispatch,
           ?s1\<lparr>s_items := foldl (append1 g) (s_items ?s1) xs\<rparr>)"
    by (intro Cons.IH) (auto simp: len_append1)
  with p show ?case by simp
qed

lemma pushes_full:
  assumes "\<not> s_mutex s" "Count_stack s \<ge> Height s"
    "elems (s_items s) \<noteq> []" "s_overload s = of_nat n" "n + length xs < 2 ^ 64"
  shows "\<exists>evs s'. pushes g s xs = Inr (evs, s')
           \<and> s_overload s' = of_nat (n + length xs)
           \<and> elems (s_items s') = drop (length xs) (elems (s_items s) @ xs)
           \<and> handler_calls OnOverload evs =
               (if s_onOverload s
                then map (\<lambda>a. SliceV [a]) (take (length xs) (elems (s_items s) @ xs)) else [])
           \<and> handler_calls OnFirstOverload evs =
               (if s_onFirstOverload s \<and> n = 0 \<and> xs \<noteq> []
                then [SliceV [hd (elems (s_items s))]] else [])"
  using assms
proof (induction xs arbitrary: s n)
  case Nil
  then show ?case by simp
next
  case (Cons x xs)
  from Cons.prems(3) obtain a as where e: "elems (s_items s) = a # as"
    by (cases "elems (s_items s)") auto
  let ?s1 = "s\<lparr>s_items := append1 g \<lparr>elems = as, spare = spare (s_items s)\<rparr> x,
               s_overload := of_nat (Suc n)\<rparr>"
  have n0: "((of_nat n :: 64 word) = 0) = (n = 0)"
    using Cons.prems(5) by (intro word64_of_nat_eq_0) simp
  from Cons.prems e have p: "Push g s x =
      Inr ([GoDispatch] @ (if s_onOverload s then [Call OnOverload (SliceV [a]) True] else [])
           @ (if n = 0 \<and> s_onFirstOverload s
              then [Call OnFirstOverload (SliceV [a]) True] else []), ?s1)"
    by (simp add: Push_overload_result n0)
  from Cons.prems e have "\<exists>evs s'. pushes g ?s1 xs = Inr (evs, s')
           \<and> s_overload s' = of_nat (Suc n + length xs)
           \<and> elems (s_items s') = drop (length xs) (elems (s_items ?s1) @ xs)
           \<and> handler_calls OnOverload evs =
               (if s_onOverload ?s1
                then map (\<lambda>a. SliceV [a]) (take (length xs) (elems (s_items ?s1) @ xs))
                else [])
           \<and> handler_calls OnFirstOverload evs =
               (if s_onFirstOverload ?s1 \<and> Suc n = 0 \<and> xs \<noteq> []
                then [SliceV [hd (elems (s_items ?s1))]] else [])"
    by (intro Cons.IH) (auto simp: Count_stack_def Height_def len_def elems_append1)
  then obtain e2 s' where
    "pushes g ?s1 xs = Inr (e2, s')"
    "s_overload s' = of_nat (Suc n + length xs)"
    "elems (s_items s') = drop (length xs) (as @ x # xs)"
    "handler_calls OnOverload e2 =
       (if s_onOverload s then map (\<lambda>a. SliceV [a]) (take (length xs) (as @ x # xs)) else [])"
    "handler_calls OnFirstOverload e2 = []"
    by (auto simp: elems_append1)
  with p e show ?case by (simp add: handler_calls_append)
qed

lemma puts_overload_accounting:
  assumes "\<not> mutex q" "\<not> draining q" "elems (items q) = []" "1 \<le> depth q"
    "overload q = 0" "length xs = nat (depth q) + k" "0 < k" "k < 2 ^ 63"
  shows "\<exists>evs q'. puts g q xs = Inr (evs, q')
           \<and> sint (overload q') = int k
           \<and> length (handler_calls OnOverload evs) = (if onOverload q then k else 0)
           \<and> handler_calls OnFirstOverload evs =
               (if onFirstOverload q
                then [if dropOldestOnOverload q then hd xs else xs ! nat (depth q)] else [])"
proof -
  let ?d = "nat (depth q)"
  let ?xs1 = "take ?d xs" and ?xs2 = "drop ?d xs"
  let ?q1 = "q\<lparr>items := foldl (append1 g) (items q) ?xs1\<rparr>"
  have l1: "length ?xs1 = ?d" and l2: "length ?xs2 = k" and ne2: "?xs2 \<noteq> []"
    and ne1: "?xs1 \<noteq> []"
    using assms(4,6,7) by auto
  have k64: "k < 2 ^ 64" using assms(8) by (rule less_trans) simp
  have fill: "puts g q ?xs1 = Inr (replicate (length ?xs1) GoDispatch, ?q1)"
    using assms(1-4) l1 by (intro puts_fill) (auto simp: len_def)
  have e1: "elems (items ?q1) = ?xs1"
    using assms(3) by (simp add: elems_foldl_append1)
  have full: "Count ?q1 \<ge> Depth ?q1"
    using assms(3,4) l1
    by (simp add: Count_def Depth_def len_def elems_foldl_append1 del: length_take)
  have hc: "handler_calls OnOverload (replicate n GoDispatch) = []"
    "handler_calls OnFirstOverload (replicate n GoDispatch) = []" for n
    by (induction n) simp_all
  have hd1: "hd ?xs1 = hd xs" using ne1 by (cases xs) (auto simp: take_Cons')
  have hd2: "hd ?xs2 = xs ! ?d" using ne2 by (simp add: hd_drop_conv_nth)
  show ?thesis
  proof (cases "dropOldestOnOverload q")
    case False
    from puts_full_incoming [of ?q1 0 ?xs2 g] assms(1,5) full False k64 l2
    obtain e2 where
      "puts g ?q1 ?xs2 = Inr (e2, ?q1\<lparr>overload := of_nat (length ?xs2)\<rparr>)"
      "handler_calls OnOverload e2 = (if onOverload q then ?xs2 else [])"
      "handler_calls OnFirstOverload e2 = (if onFirstOverload q then [hd ?xs2] else [])"
      using ne2 by auto
    with fill puts_append [of g q ?xs1 ?xs2] False l2 hd2 assms(8)
    show ?thesis
      by (auto simp: handler_calls_append hc sint_word64_of_nat simp del: length_drop)
  next
    case True
    from puts_full_oldest [of ?q1 0 ?xs2 g] assms(1,5) full True k64 l2 e1 ne1
    obtain e2 q' where
      "puts g ?q1 ?xs2 = Inr (e2, q')"
      "overload q' = of_nat (length ?xs2)"
      "handler_calls OnOverload e2 =
         (if onOverload q then take (length ?xs2) (?xs1 @ ?xs2) else [])"
      "handler_calls OnFirstOverload e2 = (if onFirstOverload q then [hd ?xs1] else [])"
      using ne2 by auto
    with fill puts_append [of g q ?xs1 ?xs2] True l2 hd1 assms(6,8)
    show ?thesis
      by (auto simp: handler_calls_append hc sint_word64_of_nat simp del: length_drop)
  qed
qed


lemma pushes_overload_accounting:
  assumes "\<not> s_mutex s" "\<not> s_draining s" "elems (s_items s) = []" "1 \<le> s_height s"
    "s_overload s = 0" "length xs = nat (s_height s) + k" "0 < k" "k < 2 ^ 63"
  shows "\<exists>evs s'. pushes g s xs = Inr (evs, s')
           \<and> sint (s_overload s') = int k
           \<and> length (handler_calls OnOverload evs) = (if s_onOverload s then k else 0)
           \<and> handler_calls OnFirstOverload evs =
               (if s_onFirstOverload s then [SliceV [hd xs]] else [])"
proof -
  let ?d = "nat (s_height s)"
  let ?xs1 = "take ?d xs" and ?xs2 = "drop ?d xs"
  let ?s1 = "s\<lparr>s_items := foldl (append1 g) (s_items s) ?xs1\<rparr>"
  have l1: "length ?xs1 = ?d" and l2: "length ?xs2 = k" and ne2: "?xs2 \<noteq> []"
    and ne1: "?xs1 \<noteq> []"
    using assms(4,6,7) by auto
  have k64: "k < 2 ^ 64" using assms(8) by (rule less_trans) simp
  have fill: "pushes g s ?xs1 = Inr (replicate (length ?xs1) GoDispatch, ?s1)"
    using assms(1-4) l1 by (intro pushes_fill) (auto simp: len_def)
  have e1: "elems (s_items ?s1) = ?xs1"
    using assms(3) by (simp add: elems_foldl_append1)
  have full: "Count_stack ?s1 \<ge> Height ?s1"
    using assms(3,4) l1
    by (simp add: Count_stack_def Height_def len_def elems_foldl_append1 del: length_take)
  have hc: "handler_calls OnOverload (replicate n GoDispatch) = []"
    "handler_calls OnFirstOverload (replicate n GoDispatch) = []" for n
    by (induction n) simp_all
  have hd1: "hd ?xs1 = hd xs" using ne1 by (cases xs) (auto simp: take_Cons')
  from pushes_full [of ?s1 0 ?xs2 g] assms(1,5) full k64 l2 e1 ne1
  obtain e2 s' where
    "pushes g ?s1 ?xs2 = Inr (e2, s')"
    "s_overload s' = of_nat (length ?xs2)"
    "handler_calls OnOverload e2 =
       (if s_onOverload s then map (\<lambda>a. SliceV [a]) (take (length ?xs2) (?xs1 @ ?xs2)) else [])"
    "handler_calls OnFirstOverload e2 = (if s_onFirstOverload s then [SliceV [hd ?xs1]] else [])"
    using ne2 by auto
  with fill pushes_append [of g s ?xs1 ?xs2] l2 hd1 assms(6,8)
  show ?thesis
    by (auto simp: handler_calls_append hc sint_word64_of_nat simp del: length_drop)
qed

text \<open>
  C5. A machine of capacity \<open>d\<close> is constructed and started, and \<open>d + k\<close> items
  (\<open>k > 0\<close>) are inserted with no dispatch step making room in between. Then the
  overload counter, read as the signed \<^verbatim>\<open>int\<close> it is, equals \<open>k\<close>; \<^verbatim>\<open>onOverload\<close>, if
  set, is called exactly \<open>k\<close> times; and \<^verbatim>\<open>onFirstOverload\<close>, if set, is called exactly
  once, by the insertion number \<open>d + 1\<close>, which makes the counter 1: its argument is
  that insertion's dropped item (the incoming item \<open>xs ! d\<close>, or with drop-oldest the
  first item put; the stack passes the slice that holds it). This holds for the queue
  and the batch queue, with and without \<^verbatim>\<open>DropOldestOnOverload\<close>, and for the stack.
  The counter is a 64-bit \<^verbatim>\<open>int\<close>, so \<open>k\<close> is below \<open>2 ^ 63\<close>.
\<close>

theorem overload_accounting:
  assumes "1 \<le> c" "1 \<le> d" "1 \<le> b" "length xs = nat d + k" "0 < k" "k < 2 ^ 63"
  shows "(\<exists>evs q. program g c d True h1 h2 h3
                     ((if dro then [OpDropOldest] else []) @ OpStart # map OpPut xs)
                   = Inr (evs, q)
            \<and> sint (overload q) = int k
            \<and> length (handler_calls OnOverload evs) = (if h1 then k else 0)
            \<and> handler_calls OnFirstOverload evs =
                (if h2 then [if dro then hd xs else xs ! nat d] else []))
       \<and> (\<exists>evs q. program_batch g c d b True h1 h2 h3
                     ((if dro then [OpDropOldest] else []) @ OpStart # map OpPut xs)
                   = Inr (evs, q)
            \<and> sint (overload q) = int k
            \<and> length (handler_calls OnOverload evs) = (if h1 then k else 0)
            \<and> handler_calls OnFirstOverload evs =
                (if h2 then [if dro then hd xs else xs ! nat d] else []))
       \<and> (\<exists>evs s. program_stack g c d True h1 h2 h3 (SStart # map SPush xs) = Inr (evs, s)
            \<and> sint (s_overload s) = int k
            \<and> length (handler_calls OnOverload evs) = (if h1 then k else 0)
            \<and> handler_calls OnFirstOverload evs = (if h2 then [SliceV [hd xs]] else []))"
proof -
  let ?q = "\<lparr>worker = True, concurrency = c, availableWorkers = c, depth = d,
             items = make_slice d, started = True, draining = False, overload = 0,
             dropOldestOnOverload = dro, onOverload = h1,
             onFirstOverload = h2, onDrained = h3, mutex = False\<rparr> :: 'a PushQueue"
  let ?bq = "\<lparr>worker = True, concurrency = c, availableWorkers = c, depth = d,
             items = make_slice d, started = True, draining = False, overload = 0,
             dropOldestOnOverload = dro, onOverload = h1,
             onFirstOverload = h2, onDrained = h3, mutex = False, batchSize = b\<rparr>
             :: 'a PushBatchQueue"
  let ?s = "\<lparr>s_worker = True, s_concurrency = c, s_availableWorkers = c, s_height = d,
             s_items = make_slice d, s_started = True, s_draining = False, s_overload = 0,
             s_onOverload = h1, s_onFirstOverload = h2, s_onDrained = h3,
             s_mutex = False\<rparr> :: 'a PushStack"
  have pq: "program g c d True h1 h2 h3
              ((if dro then [OpDropOldest] else []) @ OpStart # map OpPut xs) = puts g ?q xs"
    using assms(1,2)
    by (auto simp: program_def NewPushQueue_def Start_def DropOldestOnOverload_def run_puts
        split: sum.splits)
  have pb: "program_batch g c d b True h1 h2 h3
              ((if dro then [OpDropOldest] else []) @ OpStart # map OpPut xs) =
            (case puts g ?bq xs of Inl e \<Rightarrow> Inl e | Inr (e2, q2) \<Rightarrow> Inr (GoDispatch # e2, q2))"
    using assms(1-3)
    by (auto simp: program_batch_def NewPushBatchQueue_def Start_batch_def
        DropOldestOnOverload_def run_batch_puts split: sum.splits)
  have ps: "program_stack g c d True h1 h2 h3 (SStart # map SPush xs) = pushes g ?s xs"
    using assms(1,2)
    by (auto simp: program_stack_def NewPushStack_def Start_stack_def run_stack_pushes
        split: sum.splits)
  have "\<exists>evs q'. puts g ?q xs = Inr (evs, q')
           \<and> sint (overload q') = int k
           \<and> length (handler_calls OnOverload evs) = (if onOverload ?q then k else 0)
           \<and> handler_calls OnFirstOverload evs =
               (if onFirstOverload ?q
                then [if dropOldestOnOverload ?q then hd xs else xs ! nat (depth ?q)] else [])"
    using assms by (intro puts_overload_accounting) (simp_all add: elems_make_slice)
  then obtain e1 q1 where a1: "puts g ?q xs = Inr (e1, q1)"
    "sint (overload q1) = int k"
    "length (handler_calls OnOverload e1) = (if h1 then k else 0)"
    "handler_calls OnFirstOverload e1 =
       (if h2 then [if dro then hd xs else xs ! nat d] else [])"
    by auto
  have 1: "\<exists>evs q. program g c d True h1 h2 h3
                     ((if dro then [OpDropOldest] else []) @ OpStart # map OpPut xs)
                   = Inr (evs, q)
            \<and> sint (overload q) = int k
            \<and> length (handler_calls OnOverload evs) = (if h1 then k else 0)
            \<and> handler_calls OnFirstOverload evs =
                (if h2 then [if dro then hd xs else xs ! nat d] else [])"
    unfolding pq using a1 by blast
  have "\<exists>evs q'. puts g ?bq xs = Inr (evs, q')
           \<and> sint (overload q') = int k
           \<and> length (handler_calls OnOverload evs) = (if onOverload ?bq then k else 0)
           \<and> handler_calls OnFirstOverload evs =
               (if onFirstOverload ?bq
                then [if dropOldestOnOverload ?bq then hd xs else xs ! nat (depth ?bq)]
                else [])"
    using assms by (intro puts_overload_accounting) (simp_all add: elems_make_slice)
  then obtain e2 q2 where b2: "puts g ?bq xs = Inr (e2, q2)"
    "sint (overload q2) = int k"
    "length (handler_calls OnOverload e2) = (if h1 then k else 0)"
    "handler_calls OnFirstOverload e2 =
       (if h2 then [if dro then hd xs else xs ! nat d] else [])"
    by auto
  have 2: "\<exists>evs q. program_batch g c d b True h1 h2 h3
                     ((if dro then [OpDropOldest] else []) @ OpStart # map OpPut xs)
                   = Inr (evs, q)
            \<and> sint (overload q) = int k
            \<and> length (handler_calls OnOverload evs) = (if h1 then k else 0)
            \<and> handler_calls OnFirstOverload evs =
                (if h2 then [if dro then hd xs else xs ! nat d] else [])"
    unfolding pb using b2 by simp
  have "\<exists>evs s'. pushes g ?s xs = Inr (evs, s')
           \<and> sint (s_overload s') = int k
           \<and> length (handler_calls OnOverload evs) = (if s_onOverload ?s then k else 0)
           \<and> handler_calls OnFirstOverload evs =
               (if s_onFirstOverload ?s then [SliceV [hd xs]] else [])"
    using assms by (intro pushes_overload_accounting) (simp_all add: elems_make_slice)
  then obtain e3 s3 where a3: "pushes g ?s xs = Inr (e3, s3)"
    "sint (s_overload s3) = int k"
    "length (handler_calls OnOverload e3) = (if h1 then k else 0)"
    "handler_calls OnFirstOverload e3 = (if h2 then [SliceV [hd xs]] else [])"
    by auto
  have 3: "\<exists>evs s. program_stack g c d True h1 h2 h3 (SStart # map SPush xs) = Inr (evs, s)
            \<and> sint (s_overload s) = int k
            \<and> length (handler_calls OnOverload evs) = (if h1 then k else 0)
            \<and> handler_calls OnFirstOverload evs = (if h2 then [SliceV [hd xs]] else [])"
    unfolding ps using a3 by blast
  from 1 2 3 show ?thesis by blast
qed


theorem overload_accounting_witness:
  "(1::int) \<le> 1 \<and> (1::int) \<le> 3 \<and> (1::int) \<le> 2
   \<and> length [Item ''A'', Item ''B'', Item ''C'', Item ''D'', Item ''E''] = nat 3 + 2
   \<and> (0::nat) < 2 \<and> (2::nat) < 2 ^ 63
   \<and> (\<exists>evs q. program double_cap 1 3 True True True True
          (OpStart # map OpPut [Item ''A'', Item ''B'', Item ''C'', Item ''D'', Item ''E''])
          = Inr (evs, q)
        \<and> sint (overload q) = 2
        \<and> length (handler_calls OnOverload evs) = 2
        \<and> handler_calls OnFirstOverload evs = [Item ''D''])
   \<and> (\<exists>evs q. program_batch double_cap 1 3 2 True True True True
          (OpStart # map OpPut [Item ''A'', Item ''B'', Item ''C'', Item ''D'', Item ''E''])
          = Inr (evs, q)
        \<and> sint (overload q) = 2
        \<and> length (handler_calls OnOverload evs) = 2
        \<and> handler_calls OnFirstOverload evs = [Item ''D''])
   \<and> (\<exists>evs s. program_stack double_cap 1 3 True True True True
          (SStart # map SPush [Item ''A'', Item ''B'', Item ''C'', Item ''D'', Item ''E''])
          = Inr (evs, s)
        \<and> sint (s_overload s) = 2
        \<and> length (handler_calls OnOverload evs) = 2
        \<and> handler_calls OnFirstOverload evs = [SliceV [Item ''A'']])"
proof -
  have h: "(1::int) \<le> 1" "(1::int) \<le> 3" "(1::int) \<le> 2"
    "length [Item ''A'', Item ''B'', Item ''C'', Item ''D'', Item ''E''] = nat 3 + 2"
    "(0::nat) < 2" "(2::nat) < 2 ^ 63"
    by simp_all
  have n: "[Item ''A'', Item ''B'', Item ''C'', Item ''D'', Item ''E''] ! nat 3 = Item ''D''"
    by (simp add: eval_nat_numeral)
  from overload_accounting [OF h, of double_cap True True True False] n
  show ?thesis by simp
qed

section \<open>Batches\<close>





















end
